theory Spec2Isabelle
  imports Main
begin

section \<open>Bytes, errors and decimal formatting\<close>

text \<open>
  A Go \<open>[]byte\<close> and a Go \<open>string\<close> are both sequences of bytes; an Isabelle
  \<open>char\<close> is one byte.
\<close>

type_synonym bytes = string

text \<open>
  The values of Go's \<open>error\<close> interface that reach this package. \<open>LibError\<close> stands for
  an error made by \<open>net/http\<close>, \<open>io\<close> or \<open>json.Marshal\<close>, named by a tag; the other two
  are the errors of \<open>json.Unmarshal\<close>: \<open>*json.SyntaxError\<close> (the input is not JSON) and
  \<open>*json.UnmarshalTypeError\<close> (the JSON value does not fit the Go target).
\<close>

datatype error = LibError string | SyntaxError | UnmarshalTypeError

text \<open>The verb \<open>%d\<close> of \<open>fmt.Sprintf\<close> on an \<open>int\<close>: decimal digits, a minus sign when negative.\<close>

definition digit_char :: "nat \<Rightarrow> char" where
  "digit_char d = char_of (48 + d)"

fun nat_dec :: "nat \<Rightarrow> string" where
  "nat_dec n = (if n < 10 then [digit_char n] else nat_dec (n div 10) @ [digit_char (n mod 10)])"

declare nat_dec.simps [simp del]

definition fmt_d :: "int \<Rightarrow> string" where
  "fmt_d i = (if i < 0 then CHR ''-'' # nat_dec (nat (- i)) else nat_dec (nat i))"

section \<open>The JSON text syntax read by \<open>encoding/json\<close>\<close>

text \<open>
  \<open>encoding/json\<close> is Go's standard library, not code of this package. What the package
  relies on is written down here from the library's documented behaviour, so that
  \<open>SendRequest\<close>, \<open>ExecuteQuery\<close> and \<open>GetTokenBalances\<close> can be run on concrete bodies.

  \<open>json.Unmarshal\<close> first checks that its whole input is one JSON value (RFC 8259)
  between optional white space, then stores the value into the Go target. The parser
  below follows the scanner of \<open>encoding/json\<close>: four white-space bytes, the three
  literals, numbers, strings with their escapes, arrays and objects, and the limit of
  10000 on nesting.
\<close>

datatype json =
    JNull
  | JBool bool
  | JNumber bytes
  | JString bytes
  | JArray "json list"
  | JObject "(bytes \<times> json) list"

definition is_ws :: "char \<Rightarrow> bool" where
  "is_ws c = (c = CHR '' '' \<or> c = CHR 0x09 \<or> c = CHR 0x0D \<or> c = CHR 0x0A)"

fun skip_ws :: "bytes \<Rightarrow> bytes" where
  "skip_ws [] = []"
| "skip_ws (c # cs) = (if is_ws c then skip_ws cs else c # cs)"

definition is_digit :: "char \<Rightarrow> bool" where
  "is_digit c = (48 \<le> (of_char c :: nat) \<and> (of_char c :: nat) \<le> 57)"

definition hex_val :: "char \<Rightarrow> nat option" where
  "hex_val c = (let n = (of_char c :: nat) in
     if 48 \<le> n \<and> n \<le> 57 then Some (n - 48)
     else if 97 \<le> n \<and> n \<le> 102 then Some (n - 87)
     else if 65 \<le> n \<and> n \<le> 70 then Some (n - 55)
     else None)"

text \<open>
  The body of a string literal, after its opening quote: the bytes up to the closing
  quote, still escaped, and the input after it. A byte below 0x20 and a backslash not
  followed by one of \<open>" \ / b f n r t\<close> or by \<open>u\<close> and four hex digits are syntax errors.
\<close>

fun scan_string :: "bytes \<Rightarrow> (bytes \<times> bytes) option" where
  "scan_string [] = None"
| "scan_string (c # cs) =
     (if c = CHR 0x22 then Some ([], cs)
      else if c = CHR 0x5C then
        (case cs of
           [] \<Rightarrow> None
         | e # es \<Rightarrow>
             if e \<in> set [CHR 0x22, CHR 0x5C, CHR ''/'', CHR ''b'', CHR ''f'', CHR ''n'', CHR ''r'', CHR ''t''] then
               (case scan_string es of None \<Rightarrow> None | Some (s, r) \<Rightarrow> Some (c # e # s, r))
             else if e = CHR ''u'' then
               (case es of
                  h1 # h2 # h3 # h4 # r4 \<Rightarrow>
                    if hex_val h1 \<noteq> None \<and> hex_val h2 \<noteq> None \<and> hex_val h3 \<noteq> None \<and> hex_val h4 \<noteq> None then
                      (case scan_string r4 of None \<Rightarrow> None
                       | Some (s, r) \<Rightarrow> Some (c # e # h1 # h2 # h3 # h4 # s, r))
                    else None
                | _ \<Rightarrow> None)
             else None)
      else if (of_char c :: nat) < 32 then None
      else (case scan_string cs of None \<Rightarrow> None | Some (s, r) \<Rightarrow> Some (c # s, r)))"

text \<open>
  A number literal: an optional minus, \<open>0\<close> or a digit \<open>1-9\<close> with more digits, an
  optional fraction and an optional exponent, each with at least one digit. The result
  is the literal's text and the input after it.
\<close>

definition scan_exp :: "bytes \<Rightarrow> bytes \<Rightarrow> (bytes \<times> bytes) option" where
  "scan_exp acc r =
     (case r of
        [] \<Rightarrow> Some (acc, [])
      | e # r1 \<Rightarrow>
          if e = CHR ''e'' \<or> e = CHR ''E'' then
            (let sg = (case r1 of [] \<Rightarrow> [] | g # _ \<Rightarrow> if g = CHR ''+'' \<or> g = CHR ''-'' then [g] else []);
                 r2 = drop (length sg) r1;
                 ds = takeWhile is_digit r2
             in if ds = [] then None else Some (acc @ e # sg @ ds, dropWhile is_digit r2))
          else Some (acc, r))"

definition scan_frac :: "bytes \<Rightarrow> bytes \<Rightarrow> (bytes \<times> bytes) option" where
  "scan_frac acc r =
     (case r of
        [] \<Rightarrow> Some (acc, [])
      | p # r1 \<Rightarrow>
          if p = CHR ''.'' then
            (let ds = takeWhile is_digit r1
             in if ds = [] then None else scan_exp (acc @ p # ds) (dropWhile is_digit r1))
          else scan_exp acc r)"

definition scan_number :: "bytes \<Rightarrow> (bytes \<times> bytes) option" where
  "scan_number cs =
     (let sg = (case cs of [] \<Rightarrow> [] | g # _ \<Rightarrow> if g = CHR ''-'' then [g] else []);
          r0 = drop (length sg) cs
      in case r0 of
           [] \<Rightarrow> None
         | d # r1 \<Rightarrow>
             if d = CHR ''0'' then scan_frac (sg @ [d]) r1
             else if is_digit d then scan_frac (sg @ d # takeWhile is_digit r1) (dropWhile is_digit r1)
             else None)"

subsection \<open>String values: \<open>unquote\<close>\<close>

text \<open>
  \<open>utf8.AppendRune\<close> on a code point that is no surrogate and at most U+10FFFF.
\<close>

definition utf8_encode :: "nat \<Rightarrow> bytes" where
  "utf8_encode r =
     (if r < 0x80 then [char_of r]
      else if r < 0x800 then [char_of (0xC0 + r div 64), char_of (0x80 + r mod 64)]
      else if r < 0x10000 then
        [char_of (0xE0 + r div 4096), char_of (0x80 + (r div 64) mod 64), char_of (0x80 + r mod 64)]
      else
        [char_of (0xF0 + r div 262144), char_of (0x80 + (r div 4096) mod 64),
         char_of (0x80 + (r div 64) mod 64), char_of (0x80 + r mod 64)])"

definition replacement_char :: bytes where
  "replacement_char = utf8_encode 0xFFFD"

definition in_range :: "nat \<Rightarrow> nat \<Rightarrow> char \<Rightarrow> bool" where
  "in_range lo hi c = (lo \<le> (of_char c :: nat) \<and> (of_char c :: nat) \<le> hi)"

text \<open>
  \<open>utf8.DecodeRune\<close>, as far as \<open>unquote\<close> needs it: the number of bytes of the
  well-formed UTF-8 sequence at the head of the input, 0 when there is none.
\<close>

definition utf8_size :: "bytes \<Rightarrow> nat" where
  "utf8_size s =
     (case s of
        [] \<Rightarrow> 0
      | b0 # rest \<Rightarrow>
          (let n0 = (of_char b0 :: nat) in
           if n0 < 0x80 then 1
           else if 0xC2 \<le> n0 \<and> n0 \<le> 0xDF then
             (case rest of b1 # _ \<Rightarrow> if in_range 0x80 0xBF b1 then 2 else 0 | _ \<Rightarrow> 0)
           else if 0xE0 \<le> n0 \<and> n0 \<le> 0xEF then
             (case rest of
                b1 # b2 # _ \<Rightarrow>
                  if in_range (if n0 = 0xE0 then 0xA0 else 0x80) (if n0 = 0xED then 0x9F else 0xBF) b1
                     \<and> in_range 0x80 0xBF b2 then 3 else 0
              | _ \<Rightarrow> 0)
           else if 0xF0 \<le> n0 \<and> n0 \<le> 0xF4 then
             (case rest of
                b1 # b2 # b3 # _ \<Rightarrow>
                  if in_range (if n0 = 0xF0 then 0x90 else 0x80) (if n0 = 0xF4 then 0x8F else 0xBF) b1
                     \<and> in_range 0x80 0xBF b2 \<and> in_range 0x80 0xBF b3 then 4 else 0
              | _ \<Rightarrow> 0)
           else 0))"

text \<open>The four hex digits of a \<open>\u\<close> escape as a number (\<open>getu4\<close>).\<close>

definition getu4 :: "char \<Rightarrow> char \<Rightarrow> char \<Rightarrow> char \<Rightarrow> nat option" where
  "getu4 h1 h2 h3 h4 =
     (case (hex_val h1, hex_val h2, hex_val h3, hex_val h4) of
        (Some a, Some b, Some c, Some d) \<Rightarrow> Some (((a * 16 + b) * 16 + c) * 16 + d)
      | _ \<Rightarrow> None)"

text \<open>The low half of a surrogate pair, when the input starts with a \<open>\u\<close> escape.\<close>

definition next_u4 :: "bytes \<Rightarrow> nat option" where
  "next_u4 s =
     (case s of
        b # u # h1 # h2 # h3 # h4 # _ \<Rightarrow>
          if b = CHR 0x5C \<and> u = CHR ''u'' then getu4 h1 h2 h3 h4 else None
      | _ \<Rightarrow> None)"

definition simple_escape :: "char \<Rightarrow> char option" where
  "simple_escape e =
     (if e = CHR 0x22 \<or> e = CHR 0x5C \<or> e = CHR ''/'' then Some e
      else if e = CHR ''b'' then Some (CHR 0x08)
      else if e = CHR ''f'' then Some (CHR 0x0C)
      else if e = CHR ''n'' then Some (CHR 0x0A)
      else if e = CHR ''r'' then Some (CHR 0x0D)
      else if e = CHR ''t'' then Some (CHR 0x09)
      else None)"

text \<open>
  \<open>unquote\<close> turns the body of a string literal into the string it denotes: escapes are
  replaced, a \<open>\u\<close> escape becomes the UTF-8 encoding of its code point (two escapes that
  form a surrogate pair become one code point, a lone surrogate becomes U+FFFD), and a
  byte that starts no well-formed UTF-8 sequence becomes U+FFFD. The first argument
  counts bytes of an escape already consumed, the second the continuation bytes of a
  UTF-8 sequence still to copy. The scanner has accepted the literal before, so the
  branches for a malformed escape are never taken.
\<close>

fun unquote_go :: "nat \<Rightarrow> nat \<Rightarrow> bytes \<Rightarrow> bytes" where
  "unquote_go skip copy [] = []"
| "unquote_go skip copy (c # cs) =
     (if 0 < skip then unquote_go (skip - 1) copy cs
      else if 0 < copy then c # unquote_go 0 (copy - 1) cs
      else if c = CHR 0x5C then
        (case cs of
           [] \<Rightarrow> []
         | e # es \<Rightarrow>
             (case simple_escape e of
                Some x \<Rightarrow> x # unquote_go 0 0 es
              | None \<Rightarrow>
                  (case es of
                     h1 # h2 # h3 # h4 # r4 \<Rightarrow>
                       (case getu4 h1 h2 h3 h4 of
                          None \<Rightarrow> []
                        | Some rr \<Rightarrow>
                            if 0xD800 \<le> rr \<and> rr < 0xE000 then
                              (case next_u4 r4 of
                                 Some rr1 \<Rightarrow>
                                   if rr < 0xDC00 \<and> 0xDC00 \<le> rr1 \<and> rr1 < 0xE000 then
                                     utf8_encode ((rr - 0xD800) * 1024 + (rr1 - 0xDC00) + 0x10000)
                                       @ unquote_go 6 0 r4
                                   else replacement_char @ unquote_go 0 0 r4
                               | None \<Rightarrow> replacement_char @ unquote_go 0 0 r4)
                            else utf8_encode rr @ unquote_go 0 0 r4)
                   | _ \<Rightarrow> [])))
      else if (of_char c :: nat) < 0x80 then c # unquote_go 0 0 cs
      else
        (let n = utf8_size (c # cs)
         in if n = 0 then replacement_char @ unquote_go 0 0 cs else c # unquote_go 0 (n - 1) cs))"

definition unquote :: "bytes \<Rightarrow> bytes" where
  "unquote s = unquote_go 0 0 s"

subsection \<open>Values\<close>

text \<open>
  The three parsers start at the first byte of a value, of an array element and of an
  object key; \<open>d\<close> is the number of arrays and objects that enclose it. Each returns
  what it read and the input after it. An object's members come with the exact text
  of each value, which is what a \<open>json.RawMessage\<close> target receives. The tests on
  \<open>length\<close> before a recursive call hold for every input (a value is at least one byte
  long); they make the recursion visibly well-founded.
\<close>

definition max_nesting_depth :: nat where
  "max_nesting_depth = 10000"

definition scan_literal :: "bytes \<Rightarrow> json \<Rightarrow> bytes \<Rightarrow> (json \<times> bytes) option" where
  "scan_literal lit v s =
     (if take (length lit) s = lit then Some (v, drop (length lit) s) else None)"

function parse_value :: "nat \<Rightarrow> bytes \<Rightarrow> (json \<times> bytes) option"
  and parse_elements :: "nat \<Rightarrow> bytes \<Rightarrow> (json list \<times> bytes) option"
  and parse_members :: "nat \<Rightarrow> bytes \<Rightarrow> ((bytes \<times> bytes \<times> json) list \<times> bytes) option"
where
  "parse_value d [] = None"
| "parse_value d (c # cs) =
     (if c = CHR ''{'' then
        (if max_nesting_depth \<le> d then None
         else
           (let s = skip_ws cs
            in if s \<noteq> [] \<and> hd s = CHR ''}'' then Some (JObject [], tl s)
               else
                 (case parse_members (Suc d) s of
                    None \<Rightarrow> None
                  | Some (ms, r) \<Rightarrow> Some (JObject (map (\<lambda>(k, raw, v). (k, v)) ms), r))))
      else if c = CHR ''['' then
        (if max_nesting_depth \<le> d then None
         else
           (let s = skip_ws cs
            in if s \<noteq> [] \<and> hd s = CHR '']'' then Some (JArray [], tl s)
               else
                 (case parse_elements (Suc d) s of
                    None \<Rightarrow> None
                  | Some (vs, r) \<Rightarrow> Some (JArray vs, r))))
      else if c = CHR 0x22 then
        (case scan_string cs of
           None \<Rightarrow> None
         | Some (body, r) \<Rightarrow> Some (JString (unquote body), r))
      else if c = CHR ''n'' then scan_literal ''null'' JNull (c # cs)
      else if c = CHR ''t'' then scan_literal ''true'' (JBool True) (c # cs)
      else if c = CHR ''f'' then scan_literal ''false'' (JBool False) (c # cs)
      else if c = CHR ''-'' \<or> is_digit c then
        (case scan_number (c # cs) of
           None \<Rightarrow> None
         | Some (lit, r) \<Rightarrow> Some (JNumber lit, r))
      else None)"
| "parse_elements d s =
     (case parse_value d s of
        None \<Rightarrow> None
      | Some (v, r) \<Rightarrow>
          (let r1 = skip_ws r
           in if r1 \<noteq> [] \<and> hd r1 = CHR '']'' then Some ([v], tl r1)
              else if r1 \<noteq> [] \<and> hd r1 = CHR '','' then
                (let s2 = skip_ws (tl r1)
                 in if length s2 < length s then
                      (case parse_elements d s2 of
                         None \<Rightarrow> None
                       | Some (vs, r2) \<Rightarrow> Some (v # vs, r2))
                    else None)
              else None))"
| "parse_members d s =
     (if s \<noteq> [] \<and> hd s = CHR 0x22 then
        (case scan_string (tl s) of
           None \<Rightarrow> None
         | Some (key, r) \<Rightarrow>
             (let r1 = skip_ws r
              in if r1 \<noteq> [] \<and> hd r1 = CHR '':'' then
                   (let s2 = skip_ws (tl r1)
                    in if length s2 < length s then
                         (case parse_value d s2 of
                            None \<Rightarrow> None
                          | Some (v, r3) \<Rightarrow>
                              (let raw = take (length s2 - length r3) s2;
                                   r4 = skip_ws r3
                               in if r4 \<noteq> [] \<and> hd r4 = CHR ''}'' then
                                    Some ([(unquote key, raw, v)], tl r4)
                                  else if r4 \<noteq> [] \<and> hd r4 = CHR '','' then
                                    (let s5 = skip_ws (tl r4)
                                     in if length s5 < length s then
                                          (case parse_members d s5 of
                                             None \<Rightarrow> None
                                           | Some (ms, r6) \<Rightarrow> Some ((unquote key, raw, v) # ms, r6))
                                        else None)
                                  else None))
                       else None)
                 else None))
      else None)"
  by pat_completeness auto
termination
proof -
  have le: "length (skip_ws s) \<le> length s" for s
    by (induction s) auto
  show ?thesis
    by (relation "measure (\<lambda>x. case x of
            Inl (d, s) \<Rightarrow> 2 * length s
          | Inr (Inl (d, s)) \<Rightarrow> 2 * length s + 1
          | Inr (Inr (d, s)) \<Rightarrow> 2 * length s + 1)")
       (auto simp: less_Suc_eq_le le)
qed

declare parse_value.simps(2) [simp del] parse_elements.simps [simp del] parse_members.simps [simp del]

text \<open>A whole input: one value between optional white space, and nothing after it.\<close>

definition json_parse :: "bytes \<Rightarrow> json option" where
  "json_parse b =
     (case parse_value 0 (skip_ws b) of
        None \<Rightarrow> None
      | Some (v, r) \<Rightarrow> if skip_ws r = [] then Some v else None)"

text \<open>
  The members of an input that is an object, each key with the exact text of its
  value, in the order of the input.
\<close>

definition raw_members :: "bytes \<Rightarrow> (bytes \<times> bytes) list" where
  "raw_members b =
     (case skip_ws b of
        [] \<Rightarrow> []
      | c # cs \<Rightarrow>
          (case parse_members 1 (skip_ws cs) of
             None \<Rightarrow> []
           | Some (ms, r) \<Rightarrow> map (\<lambda>(k, raw, v). (k, raw)) ms))"

section \<open>\<open>json.Unmarshal\<close> into the three targets of this package\<close>

text \<open>
  A target of type \<open>interface{}\<close> receives a number as a \<open>float64\<close>, made by
  \<open>strconv.ParseFloat\<close>, which reports a range error when the number rounds to a value
  beyond the largest finite \<open>float64\<close>; the decoder records that as a type error. A number
  that is too small becomes zero without error. \<open>ParseFloat\<close> reads the literal as its
  decimal parser does: at most 800 significant digits are kept, the position of the
  decimal point is counted in kept digits, and the digits of the exponent are read
  until the exponent reaches 10000. The number is beyond the range when its decimal
  point lies more than 310 places right of the first kept digit, or when its value
  is at least \<open>2^1024 - 2^970\<close>, halfway between the largest \<open>float64\<close> and \<open>2^1024\<close>.
\<close>

definition digit_val :: "char \<Rightarrow> int" where
  "digit_val c = int (of_char c) - 48"

definition digits_int :: "bytes \<Rightarrow> int" where
  "digits_int ds = foldl (\<lambda>n c. 10 * n + digit_val c) 0 ds"

definition capped_exponent :: "bytes \<Rightarrow> int" where
  "capped_exponent ds = foldl (\<lambda>e c. if e < 10000 then e * 10 + digit_val c else e) 0 ds"

definition float64_threshold :: int where
  "float64_threshold = 2 ^ 1024 - 2 ^ 970"

definition float64_overflows :: "bytes \<Rightarrow> bool" where
  "float64_overflows lit =
     (let unsigned = (case lit of [] \<Rightarrow> [] | c # cs \<Rightarrow> if c = CHR ''-'' then cs else lit);
          ip = takeWhile is_digit unsigned;
          r1 = dropWhile is_digit unsigned;
          fp = (case r1 of [] \<Rightarrow> [] | c # cs \<Rightarrow> if c = CHR ''.'' then takeWhile is_digit cs else []);
          r2 = (case r1 of [] \<Rightarrow> [] | c # cs \<Rightarrow> if c = CHR ''.'' then dropWhile is_digit cs else r1);
          ex = (case r2 of [] \<Rightarrow> [] | c # cs \<Rightarrow> cs);
          negative = (case ex of [] \<Rightarrow> False | c # cs \<Rightarrow> c = CHR ''-'');
          ed = (case ex of [] \<Rightarrow> [] | c # cs \<Rightarrow> if c = CHR ''+'' \<or> c = CHR ''-'' then cs else ex);
          e = capped_exponent ed;
          isig = dropWhile (\<lambda>c. c = CHR ''0'') ip;
          sig = dropWhile (\<lambda>c. c = CHR ''0'') (ip @ fp);
          stored = take 800 sig;
          dp0 = (if isig = [] then - int (length (takeWhile (\<lambda>c. c = CHR ''0'') fp))
                 else int (min 800 (length isig)));
          dp = dp0 + (if negative then - e else e);
          k = dp - int (length stored);
          n = digits_int stored
      in if sig = [] then False
         else if 310 < dp then True
         else if dp < - 330 then False
         else if 0 \<le> k then float64_threshold \<le> n * 10 ^ nat k
         else float64_threshold * 10 ^ nat (- k) \<le> n)"

text \<open>Whether some number of a value, at any depth, is beyond the range.\<close>

fun has_range_error :: "json \<Rightarrow> bool" where
  "has_range_error (JNumber lit) = float64_overflows lit"
| "has_range_error (JArray vs) = list_ex has_range_error vs"
| "has_range_error (JObject ms) = list_ex (\<lambda>m. has_range_error (snd m)) ms"
| "has_range_error v = False"

text \<open>
  Into \<open>&map[string]interface{}{}\<close> (line 46): an object fits when none of its numbers is
  beyond the range of \<open>float64\<close>, \<open>null\<close> leaves the map as it is, every other value is a
  type error. The map is thrown away, so only the error is modelled.
\<close>

definition Unmarshal_map :: "bytes \<Rightarrow> error option" where
  "Unmarshal_map b =
     (case json_parse b of
        None \<Rightarrow> Some SyntaxError
      | Some (JObject ms) \<Rightarrow>
          if has_range_error (JObject ms) then Some UnmarshalTypeError else None
      | Some JNull \<Rightarrow> None
      | Some _ \<Rightarrow> Some UnmarshalTypeError)"

text \<open>
  Into \<open>map[string]json.RawMessage\<close> (line 153): each key of the object is bound to the
  text of its value, a later member replacing an earlier one with the same key; \<open>null\<close>
  leaves the map nil, which reads like the empty map.
\<close>

definition Unmarshal_raw_map :: "bytes \<Rightarrow> error + (bytes \<rightharpoonup> bytes)" where
  "Unmarshal_raw_map b =
     (case json_parse b of
        None \<Rightarrow> Inl SyntaxError
      | Some (JObject ms) \<Rightarrow> Inr (map_of (rev (raw_members b)))
      | Some JNull \<Rightarrow> Inr Map.empty
      | Some _ \<Rightarrow> Inl UnmarshalTypeError)"

record TokenBalance =
  Amount :: string
  FormattedAmount :: string
  Blockchain :: string
  TokenAddress :: string
  TokenId :: string

definition zero_TokenBalance :: TokenBalance where
  "zero_TokenBalance =
     \<lparr>Amount = [], FormattedAmount = [], Blockchain = [], TokenAddress = [], TokenId = []\<rparr>"

text \<open>
  A key of an object selects the struct field whose JSON name equals it, or else the
  one whose name equals it after case folding. Folding maps \<open>a-z\<close> to \<open>A-Z\<close>, and the two
  code points outside ASCII that fold to an ASCII letter: U+212A (Kelvin sign) to \<open>K\<close>
  and U+017F (long s) to \<open>S\<close>.
\<close>

definition upper_ascii :: "char \<Rightarrow> char" where
  "upper_ascii c = (if in_range 97 122 c then char_of ((of_char c :: nat) - 32) else c)"

fun fold_name :: "bytes \<Rightarrow> bytes" where
  "fold_name [] = []"
| "fold_name (a # r) =
     (if a = CHR 0xE2 \<and> take 2 r = [CHR 0x84, CHR 0xAA] then CHR ''K'' # fold_name (tl (tl r))
      else if a = CHR 0xC5 \<and> take 1 r = [CHR 0xBF] then CHR ''S'' # fold_name (tl r)
      else upper_ascii a # fold_name r)"

definition find_field :: "string list \<Rightarrow> bytes \<Rightarrow> string option" where
  "find_field names key =
     (if key \<in> set names then Some key
      else find (\<lambda>n. fold_name n = fold_name key) names)"

text \<open>
  Storing a value into a target that already holds something returns the target after
  the store and whether a type error was recorded: the decoder notes the first
  \<open>UnmarshalTypeError\<close>, skips the value and goes on. \<open>null\<close> leaves a string or a struct
  untouched.
\<close>

definition store_string :: "json \<Rightarrow> string \<Rightarrow> string \<times> bool" where
  "store_string v cur =
     (case v of JString s \<Rightarrow> (s, False) | JNull \<Rightarrow> (cur, False) | _ \<Rightarrow> (cur, True))"

definition store_TokenBalance_field :: "bytes \<times> json \<Rightarrow> TokenBalance \<times> bool \<Rightarrow> TokenBalance \<times> bool" where
  "store_TokenBalance_field m st =
     (let (t, e) = st in
      case find_field [''amount'', ''formattedAmount'', ''blockchain'', ''tokenAddress'', ''tokenId''] (fst m) of
        None \<Rightarrow> (t, e)
      | Some f \<Rightarrow>
          if f = ''amount'' then
            (let (x, e') = store_string (snd m) (Amount t) in (t\<lparr>Amount := x\<rparr>, e \<or> e'))
          else if f = ''formattedAmount'' then
            (let (x, e') = store_string (snd m) (FormattedAmount t) in (t\<lparr>FormattedAmount := x\<rparr>, e \<or> e'))
          else if f = ''blockchain'' then
            (let (x, e') = store_string (snd m) (Blockchain t) in (t\<lparr>Blockchain := x\<rparr>, e \<or> e'))
          else if f = ''tokenAddress'' then
            (let (x, e') = store_string (snd m) (TokenAddress t) in (t\<lparr>TokenAddress := x\<rparr>, e \<or> e'))
          else
            (let (x, e') = store_string (snd m) (TokenId t) in (t\<lparr>TokenId := x\<rparr>, e \<or> e')))"

definition store_TokenBalance :: "json \<Rightarrow> TokenBalance \<Rightarrow> TokenBalance \<times> bool" where
  "store_TokenBalance v cur =
     (case v of
        JObject ms \<Rightarrow> foldl (\<lambda>st m. store_TokenBalance_field m st) (cur, False) ms
      | JNull \<Rightarrow> (cur, False)
      | _ \<Rightarrow> (cur, True))"

text \<open>
  A slice target is its elements and, after them, the elements of its backing array
  that an earlier store left behind. Storing an array writes element \<open>i\<close> into what
  position \<open>i\<close> of the backing array holds (a zero struct beyond it) and sets the length
  to the array's; an empty array gives a fresh empty slice and \<open>null\<close> the nil slice.
\<close>

type_synonym balances = "TokenBalance list \<times> TokenBalance list"

fun store_elems :: "json list \<Rightarrow> TokenBalance list \<Rightarrow> TokenBalance list \<times> bool" where
  "store_elems [] backing = ([], False)"
| "store_elems (v # vs) backing =
     (let (x, e) = store_TokenBalance v (case backing of [] \<Rightarrow> zero_TokenBalance | b # _ \<Rightarrow> b);
          (xs, es) = store_elems vs (tl backing)
      in (x # xs, e \<or> es))"

definition store_slice :: "json \<Rightarrow> balances \<Rightarrow> balances \<times> bool" where
  "store_slice v cur =
     (case v of
        JArray vs \<Rightarrow>
          if vs = [] then (([], []), False)
          else
            (let backing = fst cur @ snd cur;
                 (xs, e) = store_elems vs backing
             in ((xs, drop (length vs) backing), e))
      | JNull \<Rightarrow> (([], []), False)
      | _ \<Rightarrow> (cur, True))"

text \<open>The anonymous struct of lines 105-109: \<open>respData.TokenBalances.TokenBalance\<close>.\<close>

definition store_TokenBalances :: "json \<Rightarrow> balances \<Rightarrow> balances \<times> bool" where
  "store_TokenBalances v cur =
     (case v of
        JObject ms \<Rightarrow>
          foldl (\<lambda>(sl, e) m.
                   case find_field [''TokenBalance''] (fst m) of
                     None \<Rightarrow> (sl, e)
                   | Some f \<Rightarrow> (let (sl', e') = store_slice (snd m) sl in (sl', e \<or> e')))
                (cur, False) ms
      | JNull \<Rightarrow> (cur, False)
      | _ \<Rightarrow> (cur, True))"

definition store_respData :: "json \<Rightarrow> balances \<Rightarrow> balances \<times> bool" where
  "store_respData v cur =
     (case v of
        JObject ms \<Rightarrow>
          foldl (\<lambda>(sl, e) m.
                   case find_field [''TokenBalances''] (fst m) of
                     None \<Rightarrow> (sl, e)
                   | Some f \<Rightarrow> (let (sl', e') = store_TokenBalances (snd m) sl in (sl', e \<or> e')))
                (cur, False) ms
      | JNull \<Rightarrow> (cur, False)
      | _ \<Rightarrow> (cur, True))"

text \<open>
  \<open>json.Unmarshal(resp.Data, &respData)\<close> (line 111) on the zero \<open>respData\<close>, followed by
  the read of \<open>respData.TokenBalances.TokenBalance\<close>. A nil \<open>RawMessage\<close> is the empty
  input, which is a syntax error.
\<close>

definition Unmarshal_respData :: "bytes \<Rightarrow> error + TokenBalance list" where
  "Unmarshal_respData b =
     (case json_parse b of
        None \<Rightarrow> Inl SyntaxError
      | Some v \<Rightarrow>
          (let (sl, e) = store_respData v ([], [])
           in if e then Inl UnmarshalTypeError else Inr (fst sl)))"

section \<open>The transport: \<open>SendRequest\<close>\<close>

text \<open>
  What \<open>net/http\<close> is handed and what it answers. \<open>req_header\<close> holds the pairs that the loop
  of lines 29-31 adds to the request. \<open>http.Header.Add\<close> files a pair under the
  canonical form of its key; the keys this package sends are in that form already.
\<close>

record request =
  req_method :: string
  req_url :: string
  req_header :: "string \<rightharpoonup> string"
  req_body :: bytes

text \<open>
  \<open>client.Do\<close> and \<open>io.ReadAll\<close> on the response body: the exchange fails (no
  connection, context cancelled, timeout), or gives a status code and then either a
  read error or the whole body.
\<close>

datatype round_trip =
    DoError error
  | ReadError int error
  | Response int bytes

text \<open>
  The libraries this package calls, as far as their results depend on the world or on
  Go values not modelled here: whether \<open>http.NewRequestWithContext\<close> rejects the method
  or the URL, the exchange itself, \<open>json.Marshal\<close> of the request map, and the text of
  an error (its method \<open>Error()\<close>).
\<close>

datatype 'v iface = IString string | IVariables 'v

record 'v world =
  NewRequest_error :: "string \<Rightarrow> string \<Rightarrow> error option"
  Do :: "request \<Rightarrow> round_trip"
  Marshal :: "(string \<rightharpoonup> 'v iface) \<Rightarrow> error + bytes"
  Error_text :: "error \<Rightarrow> string"

definition successStatusCode :: int where
  "successStatusCode = 200"

definition unprocessableEntityStatus :: int where
  "unprocessableEntityStatus = 422"

definition apiEndpointProd :: string where
  "apiEndpointProd = ''https://api.airstack.xyz/gql''"

text \<open>
  \<open>SendRequest\<close> takes the list of requests handed to \<open>client.Do\<close> so far and returns it
  extended, with the three results \<open>(response, statusCode, err)\<close>; a nil \<open>response\<close> is the
  empty byte sequence.
\<close>

definition SendRequest ::
  "'v world \<Rightarrow> request list \<Rightarrow> string \<Rightarrow> string \<Rightarrow> (string \<rightharpoonup> string) \<Rightarrow> bytes
     \<Rightarrow> request list \<times> bytes \<times> int \<times> error option" where
  "SendRequest w sent meth u headers b =
     (case NewRequest_error w meth u of
        Some err \<Rightarrow> (sent, [], 0, Some err)
      | None \<Rightarrow>
          (let req = \<lparr>req_method = meth, req_url = u, req_header = headers, req_body = b\<rparr>;
               sent' = sent @ [req]
           in case Do w req of
                DoError err \<Rightarrow> (sent', [], 0, Some err)
              | ReadError code err \<Rightarrow> (sent', [], code, Some err)
              | Response statusCode response \<Rightarrow>
                  if statusCode \<noteq> successStatusCode then
                    (case Unmarshal_map response of
                       Some err \<Rightarrow> (sent', response, statusCode, Some err)
                     | None \<Rightarrow> (sent', response, statusCode, None))
                  else (sent', response, statusCode, None)))"

section \<open>The client\<close>

record AirstackClient =
  APIKey :: string
  URL :: string

definition NewAirstackClient :: "string \<Rightarrow> AirstackClient" where
  "NewAirstackClient apiKey = \<lparr>APIKey = apiKey, URL = apiEndpointProd\<rparr>"

text \<open>
  A Go closure of type \<open>func() (*QueryResponse, error)\<close>. The package declares the type
  of the two fields and never makes a value of it.
\<close>

typedecl page_func

text \<open>\<open>Data\<close> is a \<open>json.RawMessage\<close>: \<open>None\<close> is nil. The last two fields are nil when \<open>None\<close>.\<close>

record QueryResponse =
  Data :: "bytes option"
  StatusCode :: int
  Error :: string
  HasNextPage :: bool
  HasPrevPage :: bool
  NextPageFunc :: "page_func option"
  PrevPageFunc :: "page_func option"

text \<open>The verb \<open>%s\<close> of \<open>fmt.Sprintf\<close> on a value of type \<open>error\<close>.\<close>

definition fmt_s :: "'v world \<Rightarrow> error option \<Rightarrow> string" where
  "fmt_s w err = (case err of None \<Rightarrow> ''%!s(<nil>)'' | Some e \<Rightarrow> Error_text w e)"

definition http_error_text :: "'v world \<Rightarrow> error option \<Rightarrow> int \<Rightarrow> string" where
  "http_error_text w err statusCode =
     ''HTTP error: '' @ fmt_s w err @ '', Status Code: '' @ fmt_d statusCode"

text \<open>
  \<open>ExecuteQuery\<close> returns \<open>(*QueryResponse, error)\<close> with exactly one of the two nil:
  \<open>Inl\<close> is the error, \<open>Inr\<close> the response. Fields that a composite literal of the source
  leaves out hold their zero value.
\<close>

definition ExecuteQuery ::
  "'v world \<Rightarrow> request list \<Rightarrow> AirstackClient \<Rightarrow> string \<Rightarrow> 'v
     \<Rightarrow> request list \<times> (error + QueryResponse)" where
  "ExecuteQuery w sent client query variables =
     (case Marshal w [''query'' \<mapsto> IString query, ''variables'' \<mapsto> IVariables variables] of
        Inl err \<Rightarrow> (sent, Inl err)
      | Inr b \<Rightarrow>
          (let headers = [''Content-Type'' \<mapsto> ''application/json'', ''Authorization'' \<mapsto> APIKey client];
               (sent', response, statusCode, err) = SendRequest w sent ''POST'' (URL client) headers b
           in if err \<noteq> None \<or> statusCode \<noteq> successStatusCode then
                (sent', Inr \<lparr>Data = None, StatusCode = statusCode,
                              Error = http_error_text w err statusCode,
                              HasNextPage = False, HasPrevPage = False,
                              NextPageFunc = None, PrevPageFunc = None\<rparr>)
              else
                (case Unmarshal_raw_map response of
                   Inl err \<Rightarrow> (sent', Inl err)
                 | Inr respData \<Rightarrow>
                     (case respData ''errors'' of
                        Some errorField \<Rightarrow>
                          (sent', Inr \<lparr>Data = None, StatusCode = statusCode, Error = errorField,
                                        HasNextPage = False, HasPrevPage = False,
                                        NextPageFunc = None, PrevPageFunc = None\<rparr>)
                      | None \<Rightarrow>
                          (sent', Inr \<lparr>Data = respData ''data'', StatusCode = statusCode, Error = [],
                                        HasNextPage = False, HasPrevPage = False,
                                        NextPageFunc = None, PrevPageFunc = None\<rparr>)))))"

text \<open>The query text of lines 82-97, line by line, each line after its tabs.\<close>

definition query_lines :: "string list" where
  "query_lines =
     [[],
      replicate 1 (CHR 0x09) @ ''query GetTokensHeldByWalletAddress($identity: Identity, $tokenType: [TokenType!], $blockchain: TokenBlockchain!, $limit: Int) {'',
      replicate 2 (CHR 0x09) @ ''TokenBalances('',
      replicate 3 (CHR 0x09) @ ''input: {filter: {owner: {_eq: $identity}, tokenType: {_in: $tokenType}}, blockchain: $blockchain, limit: $limit}'',
      replicate 2 (CHR 0x09) @ '') {'',
      replicate 3 (CHR 0x09) @ ''TokenBalance {'',
      replicate 4 (CHR 0x09) @ ''amount'',
      replicate 4 (CHR 0x09) @ ''formattedAmount'',
      replicate 4 (CHR 0x09) @ ''blockchain'',
      replicate 4 (CHR 0x09) @ ''tokenAddress'',
      replicate 4 (CHR 0x09) @ ''tokenId'',
      replicate 4 (CHR 0x09) @ ''// Include other fields as needed'',
      replicate 3 (CHR 0x09) @ ''}'',
      replicate 2 (CHR 0x09) @ ''}'',
      replicate 1 (CHR 0x09) @ ''}'',
      replicate 1 (CHR 0x09)]"

fun join_lines :: "string list \<Rightarrow> string" where
  "join_lines [] = []"
| "join_lines [l] = l"
| "join_lines (l # ls) = l @ CHR 0x0A # join_lines ls"

definition token_balances_query :: string where
  "token_balances_query = join_lines query_lines"

definition GetTokenBalances ::
  "'v world \<Rightarrow> request list \<Rightarrow> AirstackClient \<Rightarrow> 'v
     \<Rightarrow> request list \<times> (error + TokenBalance list)" where
  "GetTokenBalances w sent client variables =
     (case ExecuteQuery w sent client token_balances_query variables of
        (sent', Inl err) \<Rightarrow> (sent', Inl err)
      | (sent', Inr resp) \<Rightarrow>
          (sent', Unmarshal_respData (case Data resp of None \<Rightarrow> [] | Some d \<Rightarrow> d)))"

section \<open>Names for the arguments of line 144 and a synthetic server\<close>

text \<open>The map that \<open>ExecuteQuery\<close> marshals and the request it hands to the transport.\<close>

definition query_payload :: "string \<Rightarrow> 'v \<Rightarrow> (string \<rightharpoonup> 'v iface)" where
  "query_payload query variables = [''query'' \<mapsto> IString query, ''variables'' \<mapsto> IVariables variables]"

definition query_request :: "AirstackClient \<Rightarrow> bytes \<Rightarrow> request" where
  "query_request client b =
     \<lparr>req_method = ''POST'', req_url = URL client,
      req_header = [''Content-Type'' \<mapsto> ''application/json'', ''Authorization'' \<mapsto> APIKey client],
      req_body = b\<rparr>"

text \<open>
  A world for concrete runs: every request is accepted and answered with the given
  status code and body; the request map marshals to \<open>{}\<close>.
\<close>

definition server :: "int \<Rightarrow> bytes \<Rightarrow> unit world" where
  "server code resp =
     \<lparr>NewRequest_error = (\<lambda>meth u. None),
      Do = (\<lambda>req. Response code resp),
      Marshal = (\<lambda>m. Inr ''{}''),
      Error_text = (\<lambda>e. ''error'')\<rparr>"

section \<open>Vocabulary of the statements\<close>

text \<open>
  What follows is not code of the package: it is what the statements about the package
  are written in.

  Two continuations of an input start alike when the second is empty or both start
  with the same byte. A value that was read before the first is read the same way
  before the second.
\<close>

definition same_start :: "bytes \<Rightarrow> bytes \<Rightarrow> bool" where
  "same_start r r' = (r' = [] \<or> (r \<noteq> [] \<and> r' \<noteq> [] \<and> hd r' = hd r))"

text \<open>
  Reading a decimal numeral: an optional minus sign and at least one digit, most
  significant digit first.
\<close>

fun dec_digits :: "int \<Rightarrow> string \<Rightarrow> int option" where
  "dec_digits acc [] = Some acc"
| "dec_digits acc (c # cs) =
     (if is_digit c then dec_digits (10 * acc + digit_val c) cs else None)"

definition decimal_value :: "string \<Rightarrow> int option" where
  "decimal_value s =
     (case s of
        [] \<Rightarrow> None
      | c # cs \<Rightarrow>
          if c = CHR ''-'' then (if cs = [] then None else map_option uminus (dec_digits 0 cs))
          else dec_digits 0 s)"

text \<open>
  A body that is \<open>null\<close> or a JSON object with neither a member \<open>errors\<close> nor a member
  \<open>data\<close>.
\<close>

definition no_data_no_errors :: "bytes \<Rightarrow> bool" where
  "no_data_no_errors resp =
     (case json_parse resp of
        Some JNull \<Rightarrow> True
      | Some (JObject ms) \<Rightarrow> ''errors'' \<notin> fst ` set ms \<and> ''data'' \<notin> fst ` set ms
      | _ \<Rightarrow> False)"

text \<open>
  A well-formed token-balance record is a JSON object in which each of the five names
  of lines 72-76 occurs exactly once, with a string as value, in any order. Other
  members may stand between them when their names are unrelated to the five: plain
  ASCII and different from each of them also when upper and lower case are not told
  apart. Well-formed data is an object whose only member named \<open>TokenBalances\<close> is an
  object whose only member named \<open>TokenBalance\<close> is an array of such records, again
  with unrelated members allowed beside them. \<open>field_after\<close> is the string a field
  holds after the members of an object have been stored into it one after the other.
\<close>

definition lower_ascii :: "char \<Rightarrow> char" where
  "lower_ascii c = (if in_range 65 90 c then char_of ((of_char c :: nat) + 32) else c)"

definition is_ascii :: "char \<Rightarrow> bool" where
  "is_ascii c = ((of_char c :: nat) < 128)"

definition unrelated_key :: "string list \<Rightarrow> bytes \<Rightarrow> bool" where
  "unrelated_key names k =
     (list_all is_ascii k \<and> map lower_ascii k \<notin> set (map (map lower_ascii) names))"

definition member_values :: "string \<Rightarrow> (bytes \<times> json) list \<Rightarrow> json list" where
  "member_values name ms = map snd (filter (\<lambda>m. fst m = name) ms)"

definition TokenBalance_names :: "string list" where
  "TokenBalance_names = [''amount'', ''formattedAmount'', ''blockchain'', ''tokenAddress'', ''tokenId'']"

definition well_formed_record :: "json \<Rightarrow> TokenBalance \<Rightarrow> bool" where
  "well_formed_record j t =
     (case j of
        JObject ms \<Rightarrow>
          list_all (\<lambda>m. fst m \<in> set TokenBalance_names \<or> unrelated_key TokenBalance_names (fst m)) ms
          \<and> member_values ''amount'' ms = [JString (Amount t)]
          \<and> member_values ''formattedAmount'' ms = [JString (FormattedAmount t)]
          \<and> member_values ''blockchain'' ms = [JString (Blockchain t)]
          \<and> member_values ''tokenAddress'' ms = [JString (TokenAddress t)]
          \<and> member_values ''tokenId'' ms = [JString (TokenId t)]
      | _ \<Rightarrow> False)"

definition only_member :: "string \<Rightarrow> json \<Rightarrow> json option" where
  "only_member name j =
     (case j of
        JObject ms \<Rightarrow>
          if list_all (\<lambda>m. fst m = name \<or> unrelated_key [name] (fst m)) ms
          then (case member_values name ms of [v] \<Rightarrow> Some v | _ \<Rightarrow> None)
          else None
      | _ \<Rightarrow> None)"

definition well_formed_data :: "json \<Rightarrow> TokenBalance list \<Rightarrow> bool" where
  "well_formed_data dv recs =
     (case only_member ''TokenBalances'' dv of
        None \<Rightarrow> False
      | Some tb \<Rightarrow>
          (case only_member ''TokenBalance'' tb of
             Some (JArray vs) \<Rightarrow> list_all2 well_formed_record vs recs
           | _ \<Rightarrow> False))"

fun field_after :: "string \<Rightarrow> (bytes \<times> json) list \<Rightarrow> string \<Rightarrow> string" where
  "field_after n [] cur = cur"
| "field_after n (m # ms) cur =
     field_after n ms (if fst m = n then (case snd m of JString s \<Rightarrow> s | _ \<Rightarrow> cur) else cur)"

section \<open>Properties of the parser\<close>

text \<open>
  What a scanner or a parser leaves is never longer than its input, and a string, a
  number, a literal and so every value takes at least one byte.
\<close>

lemma length_skip_ws: "length (skip_ws s) \<le> length s"
  by (induction s) auto

lemma scan_string_shorter: "scan_string cs = Some (b, r) \<Longrightarrow> length r < length cs"
  by (induction cs arbitrary: b r rule: scan_string.induct)
     (fastforce split: if_splits option.splits list.splits)+

lemma length_dropWhile_le_input: "length (dropWhile P xs) \<le> length xs"
  by (induction xs) auto

lemma scan_exp_shorter: "scan_exp acc r = Some (l, r') \<Longrightarrow> length r' \<le> length r"
  using length_dropWhile_le_input [of is_digit "drop (length (case tl r of [] \<Rightarrow> [] | g # x \<Rightarrow> if g = CHR ''+'' \<or> g = CHR ''-'' then [g] else [])) (tl r)"]
  by (auto simp: scan_exp_def Let_def split: list.splits if_splits intro: le_SucI)

lemma scan_frac_shorter: "scan_frac acc r = Some (l, r') \<Longrightarrow> length r' \<le> length r"
  using length_dropWhile_le_input [of is_digit "tl r"]
  by (auto simp: scan_frac_def Let_def split: list.splits if_splits dest!: scan_exp_shorter)

lemma scan_number_shorter: "scan_number s = Some (l, r) \<Longrightarrow> length r < length s"
  using length_dropWhile_le_input [of is_digit "tl s"] length_dropWhile_le_input [of is_digit "tl (tl s)"]
  by (auto simp: scan_number_def Let_def split: list.splits if_splits dest!: scan_frac_shorter)

lemma scan_literal_shorter:
  "scan_literal lit v s = Some (v', r) \<Longrightarrow> lit \<noteq> [] \<Longrightarrow> length r < length s"
  by (cases s) (auto simp: scan_literal_def split: if_splits)

lemma length_tl_less: "s \<noteq> [] \<Longrightarrow> length (tl s) < length s"
  by (cases s) auto

lemma parse_value_other:
  "c \<noteq> CHR ''{'' \<Longrightarrow> c \<noteq> CHR ''['' \<Longrightarrow>
   parse_value d (c # cs) =
     (if c = CHR 0x22 then
        (case scan_string cs of None \<Rightarrow> None | Some (bd, r) \<Rightarrow> Some (JString (unquote bd), r))
      else if c = CHR ''n'' then scan_literal ''null'' JNull (c # cs)
      else if c = CHR ''t'' then scan_literal ''true'' (JBool True) (c # cs)
      else if c = CHR ''f'' then scan_literal ''false'' (JBool False) (c # cs)
      else if c = CHR ''-'' \<or> is_digit c then
        (case scan_number (c # cs) of None \<Rightarrow> None | Some (lit, r) \<Rightarrow> Some (JNumber lit, r))
      else None)"
  by (simp add: parse_value.simps)

lemma parse_value_other_shorter:
  assumes "c \<noteq> CHR ''{''" "c \<noteq> CHR ''[''" "parse_value d (c # cs) = Some (v, r)"
  shows "length r < length (c # cs)"
proof -
  note pv = assms(3) [unfolded parse_value_other [OF assms(1,2)]]
  consider (s) "c = CHR 0x22" | (n) "c = CHR ''n''" | (t) "c = CHR ''t''" | (f) "c = CHR ''f''"
    | (num) "c \<noteq> CHR 0x22" "c \<noteq> CHR ''n''" "c \<noteq> CHR ''t''" "c \<noteq> CHR ''f''"
    by blast
  then show ?thesis
  proof cases
    case s
    with pv obtain b where "scan_string cs = Some (b, r)"
      by (auto split: option.splits)
    from scan_string_shorter [OF this] show ?thesis by simp
  next
    case n
    with pv have "scan_literal ''null'' JNull (c # cs) = Some (v, r)" by simp
    from scan_literal_shorter [OF this] show ?thesis by simp
  next
    case t
    with pv have "scan_literal ''true'' (JBool True) (c # cs) = Some (v, r)" by simp
    from scan_literal_shorter [OF this] show ?thesis by simp
  next
    case f
    with pv have "scan_literal ''false'' (JBool False) (c # cs) = Some (v, r)" by simp
    from scan_literal_shorter [OF this] show ?thesis by simp
  next
    case num
    with pv obtain lit where "scan_number (c # cs) = Some (lit, r)"
      by (auto split: option.splits if_splits)
    from scan_number_shorter [OF this] show ?thesis .
  qed
qed

lemma parse_value_obj:
  "parse_value d (CHR ''{'' # cs) =
     (if max_nesting_depth \<le> d then None
      else if skip_ws cs \<noteq> [] \<and> hd (skip_ws cs) = CHR ''}'' then Some (JObject [], tl (skip_ws cs))
      else (case parse_members (Suc d) (skip_ws cs) of
              None \<Rightarrow> None
            | Some (ms, r) \<Rightarrow> Some (JObject (map (\<lambda>(k, raw, v). (k, v)) ms), r)))"
  by (simp add: parse_value.simps Let_def)

lemma parse_value_arr:
  "parse_value d (CHR ''['' # cs) =
     (if max_nesting_depth \<le> d then None
      else if skip_ws cs \<noteq> [] \<and> hd (skip_ws cs) = CHR '']'' then Some (JArray [], tl (skip_ws cs))
      else (case parse_elements (Suc d) (skip_ws cs) of
              None \<Rightarrow> None
            | Some (vs, r) \<Rightarrow> Some (JArray vs, r)))"
  by (simp add: parse_value.simps Let_def)

lemma parse_elements_unfold:
  "parse_value d s = Some (v, r) \<Longrightarrow>
   parse_elements d s =
     (if skip_ws r \<noteq> [] \<and> hd (skip_ws r) = CHR '']'' then Some ([v], tl (skip_ws r))
      else if skip_ws r \<noteq> [] \<and> hd (skip_ws r) = CHR '','' then
        (if length (skip_ws (tl (skip_ws r))) < length s then
           (case parse_elements d (skip_ws (tl (skip_ws r))) of
              None \<Rightarrow> None
            | Some (vs, r2) \<Rightarrow> Some (v # vs, r2))
         else None)
      else None)"
  by (subst parse_elements.simps) (simp add: Let_def)

lemma parse_elements_None: "parse_value d s = None \<Longrightarrow> parse_elements d s = None"
  by (subst parse_elements.simps) simp

lemma parse_members_unfold:
  "s \<noteq> [] \<Longrightarrow> hd s = CHR 0x22 \<Longrightarrow> scan_string (tl s) = Some (key, r) \<Longrightarrow>
   skip_ws r \<noteq> [] \<Longrightarrow> hd (skip_ws r) = CHR '':'' \<Longrightarrow>
   length (skip_ws (tl (skip_ws r))) < length s \<Longrightarrow>
   parse_value d (skip_ws (tl (skip_ws r))) = Some (v, r3) \<Longrightarrow>
   parse_members d s =
     (if skip_ws r3 \<noteq> [] \<and> hd (skip_ws r3) = CHR ''}'' then
        Some ([(unquote key, take (length (skip_ws (tl (skip_ws r))) - length r3) (skip_ws (tl (skip_ws r))), v)],
              tl (skip_ws r3))
      else if skip_ws r3 \<noteq> [] \<and> hd (skip_ws r3) = CHR '','' then
        (if length (skip_ws (tl (skip_ws r3))) < length s then
           (case parse_members d (skip_ws (tl (skip_ws r3))) of
              None \<Rightarrow> None
            | Some (ms, r6) \<Rightarrow>
                Some ((unquote key, take (length (skip_ws (tl (skip_ws r))) - length r3) (skip_ws (tl (skip_ws r))), v) # ms, r6))
         else None)
      else None)"
  by (subst parse_members.simps) (simp add: Let_def)

lemma parse_members_Some:
  assumes "parse_members d s = Some (ms, r6)"
  obtains key r v r3 where "s \<noteq> []" "hd s = CHR 0x22" "scan_string (tl s) = Some (key, r)"
    "skip_ws r \<noteq> []" "hd (skip_ws r) = CHR '':''"
    "length (skip_ws (tl (skip_ws r))) < length s"
    "parse_value d (skip_ws (tl (skip_ws r))) = Some (v, r3)"
  using assms
  by (subst (asm) parse_members.simps) (auto simp: Let_def split: if_splits option.splits)

lemma parse_shorter:
  "(\<forall>v r. parse_value d s = Some (v, r) \<longrightarrow> length r < length s)"
  "(\<forall>vs r. parse_elements d s = Some (vs, r) \<longrightarrow> length r < length s)"
  "(\<forall>ms r. parse_members d s = Some (ms, r) \<longrightarrow>
      length r < length s \<and> (\<forall>(k, raw, v) \<in> set ms. raw \<noteq> []))"
proof (induction d s and d s and d s rule: parse_value_parse_elements_parse_members.induct)
  case (1 d)
  show ?case by simp
next
  case (2 d c cs)
  show ?case
  proof (intro allI impI)
    fix v r assume pv: "parse_value d (c # cs) = Some (v, r)"
    have ws: "length (skip_ws cs) \<le> length cs" by (rule length_skip_ws)
    consider (obj) "c = CHR ''{''" | (arr) "c \<noteq> CHR ''{''" "c = CHR ''[''"
      | (other) "c \<noteq> CHR ''{''" "c \<noteq> CHR ''[''" by blast
    then show "length r < length (c # cs)"
    proof cases
      case obj
      note pv' = pv [unfolded obj parse_value_obj]
      show ?thesis
      proof (cases "skip_ws cs \<noteq> [] \<and> hd (skip_ws cs) = CHR ''}''")
        case True
        with pv' have "r = tl (skip_ws cs)" by (simp split: if_splits)
        with True ws length_tl_less [of "skip_ws cs"] show ?thesis by simp
      next
        case False
        with pv' obtain ms where nd: "\<not> max_nesting_depth \<le> d"
          and pm: "parse_members (Suc d) (skip_ws cs) = Some (ms, r)"
          by (auto split: if_splits option.splits)
        from "2.IH"(1) [OF obj nd refl False] pm have "length r < length (skip_ws cs)"
          by blast
        with ws show ?thesis by simp
      qed
    next
      case arr
      note pv' = pv [unfolded arr(2) parse_value_arr]
      show ?thesis
      proof (cases "skip_ws cs \<noteq> [] \<and> hd (skip_ws cs) = CHR '']''")
        case True
        with pv' have "r = tl (skip_ws cs)" by (simp split: if_splits)
        with True ws length_tl_less [of "skip_ws cs"] show ?thesis by simp
      next
        case False
        with pv' obtain vs where nd: "\<not> max_nesting_depth \<le> d"
          and pe: "parse_elements (Suc d) (skip_ws cs) = Some (vs, r)"
          by (auto split: if_splits option.splits)
        from "2.IH"(2) [OF arr(1) arr(2) nd refl False] pe have "length r < length (skip_ws cs)"
          by blast
        with ws show ?thesis by simp
      qed
    next
      case other
      from parse_value_other_shorter [OF other pv] show ?thesis .
    qed
  qed
next
  case (3 d s)
  show ?case
  proof (intro allI impI)
    fix vs r assume pe: "parse_elements d s = Some (vs, r)"
    then obtain v r0 where pv: "parse_value d s = Some (v, r0)"
      using parse_elements_None [of d s] by (cases "parse_value d s") auto
    from "3.IH"(1) pv have l0: "length r0 < length s" by blast
    have ws: "length (skip_ws r0) \<le> length r0" by (rule length_skip_ws)
    note pe' = pe [unfolded parse_elements_unfold [OF pv]]
    show "length r < length s"
    proof (cases "skip_ws r0 \<noteq> [] \<and> hd (skip_ws r0) = CHR '']''")
      case True
      with pe' have "r = tl (skip_ws r0)" by simp
      with True ws l0 length_tl_less [of "skip_ws r0"] show ?thesis by simp
    next
      case False
      with pe' have c: "skip_ws r0 \<noteq> [] \<and> hd (skip_ws r0) = CHR '',''"
        and lt: "length (skip_ws (tl (skip_ws r0))) < length s"
        by (auto split: if_splits)
      from pe' False c lt obtain vs' where
        pe2: "parse_elements d (skip_ws (tl (skip_ws r0))) = Some (vs', r)"
        by (auto split: if_splits option.splits)
      from "3.IH"(2) [OF pv refl refl False c refl lt] pe2
      have "length r < length (skip_ws (tl (skip_ws r0)))" by blast
      with lt show ?thesis by simp
    qed
  qed
next
  case (4 d s)
  show ?case
  proof (intro allI impI)
    fix ms r assume pm: "parse_members d s = Some (ms, r)"
    from pm obtain key r1 v r3 where h: "s \<noteq> []" "hd s = CHR 0x22"
      "scan_string (tl s) = Some (key, r1)"
      "skip_ws r1 \<noteq> []" "hd (skip_ws r1) = CHR '':''"
      "length (skip_ws (tl (skip_ws r1))) < length s"
      "parse_value d (skip_ws (tl (skip_ws r1))) = Some (v, r3)"
      by (rule parse_members_Some)
    let ?s2 = "skip_ws (tl (skip_ws r1))"
    have c1: "s \<noteq> [] \<and> hd s = CHR 0x22" and c2: "skip_ws r1 \<noteq> [] \<and> hd (skip_ws r1) = CHR '':''"
      using h by simp_all
    from "4.IH"(1) [OF c1 h(3) refl refl c2 refl h(6)] h(7)
    have l3: "length r3 < length ?s2" by blast
    then have raw: "take (length ?s2 - length r3) ?s2 \<noteq> []" by auto
    have ws: "length (skip_ws r3) \<le> length r3" by (rule length_skip_ws)
    note pm' = pm [unfolded parse_members_unfold [OF h]]
    show "length r < length s \<and> (\<forall>(k, raw, v) \<in> set ms. raw \<noteq> [])"
    proof (cases "skip_ws r3 \<noteq> [] \<and> hd (skip_ws r3) = CHR ''}''")
      case True
      with pm' have "r = tl (skip_ws r3)"
        and "ms = [(unquote key, take (length ?s2 - length r3) ?s2, v)]" by simp_all
      with True ws l3 h(6) raw length_tl_less [of "skip_ws r3"] show ?thesis by simp
    next
      case False
      with pm' have c: "skip_ws r3 \<noteq> [] \<and> hd (skip_ws r3) = CHR '',''"
        and lt: "length (skip_ws (tl (skip_ws r3))) < length s"
        by (auto split: if_splits)
      from pm' False c lt obtain ms' where
        pm2: "parse_members d (skip_ws (tl (skip_ws r3))) = Some (ms', r)"
        and ms: "ms = (unquote key, take (length ?s2 - length r3) ?s2, v) # ms'"
        by (auto split: if_splits option.splits)
      from "4.IH"(2) [OF c1 h(3) refl refl c2 refl h(6) h(7) refl refl refl False c refl lt] pm2
      have "length r < length (skip_ws (tl (skip_ws r3))) \<and> (\<forall>(k, raw, v) \<in> set ms'. raw \<noteq> [])"
        by blast
      with lt ms raw show ?thesis by simp
    qed
  qed
qed

text \<open>
  So the three tests on \<open>length\<close> in \<open>parse_elements\<close> and \<open>parse_members\<close> never fail:
  each holds whenever the parser reaches it.
\<close>

lemma length_skip_tl_skip: "length (skip_ws (tl (skip_ws r))) \<le> length r"
proof -
  have "length (skip_ws (tl (skip_ws r))) \<le> length (tl (skip_ws r))"
    by (rule length_skip_ws)
  also have "\<dots> \<le> length (skip_ws r)" by simp
  also have "\<dots> \<le> length r" by (rule length_skip_ws)
  finally show ?thesis .
qed

lemma parse_elements_test_holds:
  assumes "parse_value d s = Some (v, r)"
  shows "length (skip_ws (tl (skip_ws r))) < length s"
  using parse_shorter(1) [of d s] assms length_skip_tl_skip [of r] by fastforce

lemma parse_members_first_test_holds:
  assumes "s \<noteq> []" and "scan_string (tl s) = Some (key, r)"
  shows "length (skip_ws (tl (skip_ws r))) < length s"
  using scan_string_shorter [OF assms(2)] length_skip_tl_skip [of r] assms(1)
  by (cases s) auto

lemma parse_members_second_test_holds:
  assumes "parse_value d s2 = Some (v, r3)" and "length s2 < length s"
  shows "length (skip_ws (tl (skip_ws r3))) < length s"
  using parse_elements_test_holds [OF assms(1)] assms(2) by simp

text \<open>
  The keys that \<open>raw_members\<close> reports are the keys of the parsed object, in the same
  order, and no member has an empty text.
\<close>

lemma parse_value_object:
  assumes "parse_value d (c # cs) = Some (JObject ms, r)"
  shows "c = CHR ''{'' \<and>
         (if skip_ws cs \<noteq> [] \<and> hd (skip_ws cs) = CHR ''}'' then ms = []
          else \<exists>ms'. parse_members (Suc d) (skip_ws cs) = Some (ms', r)
                 \<and> ms = map (\<lambda>(k, raw, v). (k, v)) ms')"
  using assms
  by (auto simp: parse_value.simps scan_literal_def Let_def split: if_splits option.splits)

lemma parse_members_not_brace:
  "s \<noteq> [] \<and> hd s = CHR ''}'' \<Longrightarrow> parse_members d s = None"
  by (subst parse_members.simps) auto

lemma raw_members_keys:
  assumes "json_parse b = Some (JObject ms)"
  shows "map fst (raw_members b) = map fst ms"
proof -
  from assms obtain r where pv: "parse_value 0 (skip_ws b) = Some (JObject ms, r)"
    by (auto simp: json_parse_def split: option.splits if_splits)
  then obtain c cs where sb: "skip_ws b = c # cs"
    by (cases "skip_ws b") auto
  note po = parse_value_object [OF pv [unfolded sb]]
  show ?thesis
  proof (cases "skip_ws cs \<noteq> [] \<and> hd (skip_ws cs) = CHR ''}''")
    case True
    with po have "ms = []" by simp
    moreover from True have "parse_members 1 (skip_ws cs) = None"
      by (rule parse_members_not_brace)
    ultimately show ?thesis by (simp add: raw_members_def sb)
  next
    case False
    with po obtain ms' where pm: "parse_members (Suc 0) (skip_ws cs) = Some (ms', r)"
      and ms: "ms = map (\<lambda>(k, raw, v). (k, v)) ms'"
      by auto
    show ?thesis
      using pm by (simp add: raw_members_def sb ms case_prod_beta comp_def)
  qed
qed

text \<open>
  Reading is local: what a scanner or parser reads depends only on the bytes it
  consumes and on the first byte after them. So the text of an object's member,
  taken by itself, parses to the member's value.
\<close>

lemma same_start_append: "same_start (w @ c # x) (w @ c # y)"
  by (cases w) (simp_all add: same_start_def)

lemma same_start_Cons: "same_start (c # x) (c # y)"
  by (simp add: same_start_def)

lemma skip_ws_split: "\<exists>w. s = w @ skip_ws s \<and> (\<forall>x. skip_ws (w @ x) = skip_ws x)"
proof (induction s)
  case Nil
  show ?case by simp
next
  case (Cons c s)
  show ?case
  proof (cases "is_ws c")
    case True
    from Cons obtain w where w: "s = w @ skip_ws s" "\<forall>x. skip_ws (w @ x) = skip_ws x" by blast
    have "c # s = (c # w) @ skip_ws (c # s)" using True w(1) by simp
    moreover have "\<forall>x. skip_ws ((c # w) @ x) = skip_ws x" using True w(2) by simp
    ultimately show ?thesis by blast
  next
    case False
    then have "c # s = [] @ skip_ws (c # s) \<and> (\<forall>x. skip_ws ([] @ x) = skip_ws x)" by simp
    then show ?thesis by blast
  qed
qed

lemma skip_ws_start: "skip_ws s \<noteq> [] \<Longrightarrow> \<not> is_ws (hd (skip_ws s))"
  by (induction s) auto

lemma skip_ws_not_ws: "\<not> is_ws c \<Longrightarrow> skip_ws (c # x) = c # x"
  by simp

lemma scan_string_local:
  "scan_string s = Some (k, r) \<Longrightarrow> \<exists>t. s = t @ r \<and> (\<forall>r'. scan_string (t @ r') = Some (k, r'))"
proof (induction s arbitrary: k r rule: scan_string.induct)
  case 1
  then show ?case by simp
next
  case (2 c cs)
  consider (q) "c = CHR 0x22" | (b) "c \<noteq> CHR 0x22" "c = CHR 0x5C" | (o) "c \<noteq> CHR 0x22" "c \<noteq> CHR 0x5C"
    by blast
  then show ?case
  proof cases
    case q
    with "2.prems" have "k = []" "r = cs" by simp_all
    with q have "c # cs = [c] @ r \<and> (\<forall>r'. scan_string ([c] @ r') = Some (k, r'))" by simp
    then show ?thesis by blast
  next
    case b
    from "2.prems" b obtain e es where cs: "cs = e # es" by (cases cs) auto
    show ?thesis
    proof (cases "e \<in> set [CHR 0x22, CHR 0x5C, CHR ''/'', CHR ''b'', CHR ''f'', CHR ''n'', CHR ''r'', CHR ''t'']")
      case True
      with "2.prems" b cs obtain k0 where sc: "scan_string es = Some (k0, r)" and k: "k = c # e # k0"
        by (auto split: option.splits)
      from "2.IH"(1) [OF b(1) b(2) cs True sc] obtain t where
        t: "es = t @ r" "\<forall>r'. scan_string (t @ r') = Some (k0, r')" by blast
      have "c # cs = (c # e # t) @ r" using cs t(1) by simp
      moreover have "\<forall>r'. scan_string ((c # e # t) @ r') = Some (k, r')"
        using b True t(2) k by simp
      ultimately show ?thesis by blast
    next
      case False
      with "2.prems" b cs have eu: "e = CHR ''u''" by (auto split: if_splits)
      from "2.prems" b cs False eu obtain h1 h2 h3 h4 r4 where es: "es = h1 # h2 # h3 # h4 # r4"
        by (auto split: list.splits)
      from "2.prems" b cs False eu es have hx: "hex_val h1 \<noteq> None \<and> hex_val h2 \<noteq> None \<and> hex_val h3 \<noteq> None \<and> hex_val h4 \<noteq> None"
        by (auto split: if_splits)
      from "2.prems" b cs False eu es hx obtain k0 where sc: "scan_string r4 = Some (k0, r)"
        and k: "k = c # e # h1 # h2 # h3 # h4 # k0"
        by (auto split: option.splits)
      from "2.IH"(2) [OF b(1) b(2) cs False eu es refl refl refl hx sc] obtain t where
        t: "r4 = t @ r" "\<forall>r'. scan_string (t @ r') = Some (k0, r')" by blast
      have "c # cs = (c # e # h1 # h2 # h3 # h4 # t) @ r" using cs es t(1) by simp
      moreover have "\<forall>r'. scan_string ((c # e # h1 # h2 # h3 # h4 # t) @ r') = Some (k, r')"
        using b False eu hx t(2) k by simp
      ultimately show ?thesis by blast
    qed
  next
    case o
    with "2.prems" have lo: "\<not> (of_char c :: nat) < 32" by (auto split: if_splits)
    from "2.prems" o lo obtain k0 where sc: "scan_string cs = Some (k0, r)" and k: "k = c # k0"
      by (auto split: option.splits)
    from "2.IH"(3) [OF o(1) o(2) lo sc] obtain t where
      t: "cs = t @ r" "\<forall>r'. scan_string (t @ r') = Some (k0, r')" by blast
    have "c # cs = (c # t) @ r" using t(1) by simp
    moreover have "\<forall>r'. scan_string ((c # t) @ r') = Some (k, r')"
      using o lo t(2) k by simp
    ultimately show ?thesis by blast
  qed
qed

lemma scan_literal_local:
  assumes "scan_literal lit v s = Some (v', r)"
  shows "s = lit @ r \<and> v' = v \<and> (\<forall>r'. scan_literal lit v (lit @ r') = Some (v, r'))"
proof -
  from assms have tk: "take (length lit) s = lit" and r: "r = drop (length lit) s" and v: "v' = v"
    by (auto simp: scan_literal_def split: if_splits)
  from tk r have "s = lit @ r" by (metis append_take_drop_id)
  with v show ?thesis by (simp add: scan_literal_def)
qed

lemma digits_then:
  assumes "\<forall>x \<in> set ds. is_digit x" and "r' = [] \<or> \<not> is_digit (hd r')"
  shows "takeWhile is_digit (ds @ r') = ds" and "dropWhile is_digit (ds @ r') = r'"
proof -
  have a: "takeWhile is_digit r' = []" and b: "dropWhile is_digit r' = r'"
    using assms(2) by (cases r'; simp)+
  show "takeWhile is_digit (ds @ r') = ds"
    using assms(1) a by (simp add: takeWhile_append2)
  show "dropWhile is_digit (ds @ r') = r'"
    using assms(1) b by (simp add: dropWhile_append2)
qed

lemma drop_digits_start: "dropWhile is_digit s = [] \<or> \<not> is_digit (hd (dropWhile is_digit s))"
  by (metis hd_dropWhile)

lemma same_start_not_digit:
  "same_start (dropWhile is_digit s) r' \<Longrightarrow> r' = [] \<or> \<not> is_digit (hd r')"
  using drop_digits_start [of s] by (auto simp: same_start_def)

lemma scan_exp_local:
  assumes "scan_exp acc s = Some (l, r)"
  shows "\<exists>t. s = t @ r \<and> l = acc @ t \<and>
           (\<forall>acc' r'. same_start r r' \<longrightarrow> scan_exp acc' (t @ r') = Some (acc' @ t, r'))"
proof (cases s)
  case Nil
  with assms have "l = acc" "r = []" by (simp_all add: scan_exp_def)
  with Nil have "s = [] @ r \<and> l = acc @ [] \<and>
      (\<forall>acc' r'. same_start r r' \<longrightarrow> scan_exp acc' ([] @ r') = Some (acc' @ [], r'))"
    by (simp add: same_start_def scan_exp_def)
  then show ?thesis by blast
next
  case (Cons e r1)
  show ?thesis
  proof (cases "e = CHR ''e'' \<or> e = CHR ''E''")
    case False
    with assms Cons have lr: "l = acc" "r = s" by (simp_all add: scan_exp_def)
    have "\<forall>acc' r'. same_start r r' \<longrightarrow> scan_exp acc' ([] @ r') = Some (acc' @ [], r')"
    proof (intro allI impI)
      fix acc' r' assume "same_start r r'"
      with lr Cons have "r' = [] \<or> (r' \<noteq> [] \<and> hd r' = e)" by (auto simp: same_start_def)
      with False show "scan_exp acc' ([] @ r') = Some (acc' @ [], r')"
        by (cases r') (auto simp: scan_exp_def)
    qed
    with lr show ?thesis by auto
  next
    case True
    define sg where "sg = (case r1 of [] \<Rightarrow> [] | g # _ \<Rightarrow> if g = CHR ''+'' \<or> g = CHR ''-'' then [g] else [])"
    define r2 where "r2 = drop (length sg) r1"
    define ds where "ds = takeWhile is_digit r2"
    from assms Cons True have ne: "ds \<noteq> []" and l: "l = acc @ e # sg @ ds" and r: "r = dropWhile is_digit r2"
      by (auto simp: scan_exp_def Let_def sg_def r2_def ds_def split: if_splits)
    have r1: "r1 = sg @ r2" by (cases r1) (auto simp: sg_def r2_def)
    have r2: "r2 = ds @ r" by (simp add: ds_def r)
    have dd: "\<forall>x \<in> set ds. is_digit x" unfolding ds_def by (metis set_takeWhileD)
    have nsign: "sg = [] \<Longrightarrow> hd ds \<noteq> CHR ''+'' \<and> hd ds \<noteq> CHR ''-''"
      using dd ne by (cases ds) (auto simp: is_digit_def)
    have sgc: "sg = [] \<or> (\<exists>g. sg = [g] \<and> (g = CHR ''+'' \<or> g = CHR ''-''))"
      by (cases r1) (auto simp: sg_def)
    have "\<forall>acc' r'. same_start r r' \<longrightarrow> scan_exp acc' ((e # sg @ ds) @ r') = Some (acc' @ e # sg @ ds, r')"
    proof (intro allI impI)
      fix acc' r' assume "same_start r r'"
      then have nd: "r' = [] \<or> \<not> is_digit (hd r')" unfolding r by (rule same_start_not_digit)
      note dt = digits_then [OF dd nd]
      from sgc show "scan_exp acc' ((e # sg @ ds) @ r') = Some (acc' @ e # sg @ ds, r')"
      proof
        assume s0: "sg = []"
        with nsign ne obtain d0 ds0 where ds0: "ds = d0 # ds0" "d0 \<noteq> CHR ''+''" "d0 \<noteq> CHR ''-''"
          by (cases ds) auto
        have "takeWhile is_digit (d0 # ds0 @ r') = d0 # ds0" "dropWhile is_digit (d0 # ds0 @ r') = r'"
          using dt ds0(1) by simp_all
        with True s0 ds0 show ?thesis
          by (simp add: scan_exp_def Let_def)
      next
        assume "\<exists>g. sg = [g] \<and> (g = CHR ''+'' \<or> g = CHR ''-'')"
        then obtain g where g: "sg = [g]" "g = CHR ''+'' \<or> g = CHR ''-''" by blast
        with True dt ne show ?thesis
          by (simp add: scan_exp_def Let_def)
      qed
    qed
    moreover have "s = (e # sg @ ds) @ r" using Cons r1 r2 by simp
    ultimately show ?thesis using l by blast
  qed
qed

lemma after_digits_start:
  assumes "dropWhile is_digit x = t @ r" and "same_start r r'"
  shows "t @ r' = [] \<or> \<not> is_digit (hd (t @ r'))"
proof (cases t)
  case Nil
  with assms(1) have "r = dropWhile is_digit x" by simp
  with assms(2) have "r' = [] \<or> \<not> is_digit (hd r')" by (simp add: same_start_not_digit)
  with Nil show ?thesis by simp
next
  case (Cons a t')
  with assms(1) drop_digits_start [of x] have "\<not> is_digit a" by auto
  with Cons show ?thesis by simp
qed

lemma scan_frac_no_point: "x = [] \<or> hd x \<noteq> CHR ''.'' \<Longrightarrow> scan_frac a x = scan_exp a x"
  by (cases x) (auto simp: scan_frac_def scan_exp_def)

lemma scan_frac_local:
  assumes "scan_frac acc s = Some (l, r)"
  shows "\<exists>t. s = t @ r \<and> l = acc @ t \<and>
           (\<forall>acc' r'. same_start r r' \<longrightarrow> scan_frac acc' (t @ r') = Some (acc' @ t, r'))"
proof (cases "s = [] \<or> hd s \<noteq> CHR ''.''")
  case True
  with assms have "scan_exp acc s = Some (l, r)" by (simp add: scan_frac_no_point)
  from scan_exp_local [OF this] obtain t where t: "s = t @ r" "l = acc @ t"
    "\<forall>acc' r'. same_start r r' \<longrightarrow> scan_exp acc' (t @ r') = Some (acc' @ t, r')" by blast
  have "\<forall>acc' r'. same_start r r' \<longrightarrow> scan_frac acc' (t @ r') = Some (acc' @ t, r')"
  proof (intro allI impI)
    fix acc' r' assume ss: "same_start r r'"
    have "t @ r' = [] \<or> hd (t @ r') \<noteq> CHR ''.''"
    proof (cases t)
      case Nil
      with t(1) True ss show ?thesis by (auto simp: same_start_def)
    next
      case (Cons a t')
      with t(1) True show ?thesis by auto
    qed
    then have "scan_frac acc' (t @ r') = scan_exp acc' (t @ r')" by (rule scan_frac_no_point)
    with t(3) ss show "scan_frac acc' (t @ r') = Some (acc' @ t, r')" by simp
  qed
  with t(1,2) show ?thesis by blast
next
  case False
  then obtain r1 where s: "s = CHR ''.'' # r1" by (cases s) auto
  define ds where "ds = takeWhile is_digit r1"
  define rr where "rr = dropWhile is_digit r1"
  from assms s have ne: "ds \<noteq> []" and se: "scan_exp (acc @ CHR ''.'' # ds) rr = Some (l, r)"
    by (auto simp: scan_frac_def Let_def ds_def rr_def split: if_splits)
  from scan_exp_local [OF se] obtain t where t: "rr = t @ r" "l = (acc @ CHR ''.'' # ds) @ t"
    "\<forall>acc' r'. same_start r r' \<longrightarrow> scan_exp acc' (t @ r') = Some (acc' @ t, r')" by blast
  have dd: "\<forall>x \<in> set ds. is_digit x" unfolding ds_def by (metis set_takeWhileD)
  have r1: "r1 = ds @ rr" by (simp add: ds_def rr_def)
  have "\<forall>acc' r'. same_start r r' \<longrightarrow>
          scan_frac acc' ((CHR ''.'' # ds @ t) @ r') = Some (acc' @ CHR ''.'' # ds @ t, r')"
  proof (intro allI impI)
    fix acc' r' assume ss: "same_start r r'"
    from after_digits_start [OF t(1) [unfolded rr_def] ss]
    have "t @ r' = [] \<or> \<not> is_digit (hd (t @ r'))" .
    note dt = digits_then [OF dd this]
    from t(3) ss have "scan_exp (acc' @ CHR ''.'' # ds) (t @ r') = Some ((acc' @ CHR ''.'' # ds) @ t, r')"
      by blast
    with dt ne show "scan_frac acc' ((CHR ''.'' # ds @ t) @ r') = Some (acc' @ CHR ''.'' # ds @ t, r')"
      by (simp add: scan_frac_def Let_def)
  qed
  moreover have "s = (CHR ''.'' # ds @ t) @ r" using s r1 t(1) by simp
  moreover have "l = acc @ (CHR ''.'' # ds @ t)" using t(2) by simp
  ultimately show ?thesis by blast
qed

lemma scan_number_local:
  assumes "scan_number s = Some (l, r)"
  shows "s = l @ r \<and> (\<forall>r'. same_start r r' \<longrightarrow> scan_number (l @ r') = Some (l, r'))"
proof -
  define sg where "sg = (case s of [] \<Rightarrow> [] | g # _ \<Rightarrow> if g = CHR ''-'' then [g] else [])"
  define r0 where "r0 = drop (length sg) s"
  have s: "s = sg @ r0" by (cases s) (auto simp: sg_def r0_def)
  have sgc: "sg = [] \<or> sg = [CHR ''-'']" by (cases s) (auto simp: sg_def)
  from assms obtain d r1 where r0: "r0 = d # r1"
    by (cases r0) (auto simp: scan_number_def Let_def sg_def r0_def)
  have dm: "d \<noteq> CHR ''-''" if sg0: "sg = []"
  proof (cases s)
    case Nil
    with r0 show ?thesis by (simp add: r0_def)
  next
    case (Cons g s')
    with sg0 have "g \<noteq> CHR ''-''" by (simp add: sg_def split: if_splits)
    moreover from sg0 Cons r0 have "d = g" by (simp add: r0_def)
    ultimately show ?thesis by simp
  qed
  have sg_again: "(case sg @ d # x of [] \<Rightarrow> [] | g # _ \<Rightarrow> if g = CHR ''-'' then [g] else []) = sg" for x
    using sgc dm by auto
  show ?thesis
  proof (cases "d = CHR ''0''")
    case True
    with assms r0 have sf: "scan_frac (sg @ [d]) r1 = Some (l, r)"
      by (simp add: scan_number_def Let_def sg_def [symmetric] r0_def [symmetric])
    from scan_frac_local [OF sf] obtain t where t: "r1 = t @ r" "l = (sg @ [d]) @ t"
      "\<forall>acc' r'. same_start r r' \<longrightarrow> scan_frac acc' (t @ r') = Some (acc' @ t, r')" by blast
    have "\<forall>r'. same_start r r' \<longrightarrow> scan_number (l @ r') = Some (l, r')"
    proof (intro allI impI)
      fix r' assume "same_start r r'"
      with t(3) have "scan_frac (sg @ [d]) (t @ r') = Some ((sg @ [d]) @ t, r')" by blast
      with True t(2) sg_again [of "t @ r'"] show "scan_number (l @ r') = Some (l, r')"
        by (simp add: scan_number_def Let_def)
    qed
    moreover have "s = l @ r" using s r0 t(1,2) by simp
    ultimately show ?thesis by blast
  next
    case False
    define ds where "ds = takeWhile is_digit r1"
    define rr where "rr = dropWhile is_digit r1"
    from assms r0 False have dg: "is_digit d" and sf: "scan_frac (sg @ d # ds) rr = Some (l, r)"
      by (auto simp: scan_number_def Let_def sg_def [symmetric] r0_def [symmetric]
            ds_def rr_def split: if_splits)
    from scan_frac_local [OF sf] obtain t where t: "rr = t @ r" "l = (sg @ d # ds) @ t"
      "\<forall>acc' r'. same_start r r' \<longrightarrow> scan_frac acc' (t @ r') = Some (acc' @ t, r')" by blast
    have dd: "\<forall>x \<in> set ds. is_digit x" unfolding ds_def by (metis set_takeWhileD)
    have r1: "r1 = ds @ rr" by (simp add: ds_def rr_def)
    have "\<forall>r'. same_start r r' \<longrightarrow> scan_number (l @ r') = Some (l, r')"
    proof (intro allI impI)
      fix r' assume ss: "same_start r r'"
      from after_digits_start [OF t(1) [unfolded rr_def] ss]
      have "t @ r' = [] \<or> \<not> is_digit (hd (t @ r'))" .
      note dt = digits_then [OF dd this]
      from t(3) ss have "scan_frac (sg @ d # ds) (t @ r') = Some ((sg @ d # ds) @ t, r')" by blast
      with False dg dt t(2) sg_again [of "ds @ t @ r'"] show "scan_number (l @ r') = Some (l, r')"
        by (simp add: scan_number_def Let_def)
    qed
    moreover have "s = l @ r" using s r0 r1 t(1,2) by simp
    ultimately show ?thesis by blast
  qed
qed

lemma parse_elements_eq:
  "parse_elements d s =
     (case parse_value d s of
        None \<Rightarrow> None
      | Some (v, r) \<Rightarrow>
          if skip_ws r \<noteq> [] \<and> hd (skip_ws r) = CHR '']'' then Some ([v], tl (skip_ws r))
          else if skip_ws r \<noteq> [] \<and> hd (skip_ws r) = CHR '','' then
            (case parse_elements d (skip_ws (tl (skip_ws r))) of
               None \<Rightarrow> None
             | Some (vs, r2) \<Rightarrow> Some (v # vs, r2))
          else None)"
proof (cases "parse_value d s")
  case None
  then show ?thesis by (simp add: parse_elements_None)
next
  case (Some p)
  obtain v r where p: "p = (v, r)" by (cases p)
  from Some p have pv: "parse_value d s = Some (v, r)" by simp
  show ?thesis
    by (simp add: parse_elements_unfold [OF pv] parse_elements_test_holds [OF pv] pv)
qed

lemma parse_members_eq:
  assumes "s \<noteq> []" "hd s = CHR 0x22" "scan_string (tl s) = Some (key, r)"
    "skip_ws r \<noteq> []" "hd (skip_ws r) = CHR '':''"
    "parse_value d (skip_ws (tl (skip_ws r))) = Some (v, r3)"
  shows "parse_members d s =
     (if skip_ws r3 \<noteq> [] \<and> hd (skip_ws r3) = CHR ''}'' then
        Some ([(unquote key, take (length (skip_ws (tl (skip_ws r))) - length r3) (skip_ws (tl (skip_ws r))), v)],
              tl (skip_ws r3))
      else if skip_ws r3 \<noteq> [] \<and> hd (skip_ws r3) = CHR '','' then
        (case parse_members d (skip_ws (tl (skip_ws r3))) of
           None \<Rightarrow> None
         | Some (ms, r6) \<Rightarrow>
             Some ((unquote key, take (length (skip_ws (tl (skip_ws r))) - length r3) (skip_ws (tl (skip_ws r))), v) # ms, r6))
      else None)"
proof -
  note g1 = parse_members_first_test_holds [OF assms(1,3)]
  note g2 = parse_members_second_test_holds [OF assms(6) g1]
  show ?thesis
    by (simp add: parse_members_unfold [OF assms(1-5) g1 assms(6)] g2)
qed

lemma parse_value_other_local:
  assumes "c \<noteq> CHR ''{''" "c \<noteq> CHR ''[''" "parse_value d (c # cs) = Some (v, r)"
  shows "\<exists>t. c # cs = t @ r \<and>
           (\<forall>d' r'. same_start r r' \<longrightarrow> parse_value d' (t @ r') = Some (v, r'))"
proof -
  note pv = assms(3) [unfolded parse_value_other [OF assms(1,2)]]
  note po = parse_value_other [OF assms(1,2)]
  consider (s) "c = CHR 0x22" | (n) "c = CHR ''n''" | (t) "c = CHR ''t''" | (f) "c = CHR ''f''"
    | (num) "c \<noteq> CHR 0x22" "c \<noteq> CHR ''n''" "c \<noteq> CHR ''t''" "c \<noteq> CHR ''f''"
    by blast
  then show ?thesis
  proof cases
    case s
    with pv obtain b where sc: "scan_string cs = Some (b, r)" and v: "v = JString (unquote b)"
      by (auto split: option.splits)
    from scan_string_local [OF sc] obtain t where t: "cs = t @ r"
      "\<forall>r'. scan_string (t @ r') = Some (b, r')" by blast
    have "\<forall>d' r'. same_start r r' \<longrightarrow> parse_value d' ((c # t) @ r') = Some (v, r')"
      using t(2) v s by (simp add: parse_value.simps)
    moreover have "c # cs = (c # t) @ r" using t(1) by simp
    ultimately show ?thesis by blast
  next
    case n
    with pv have sl: "scan_literal ''null'' JNull (c # cs) = Some (v, r)" by simp
    from scan_literal_local [OF sl] n
    have "c # cs = ''null'' @ r" "v = JNull"
      "\<forall>d' r'. same_start r r' \<longrightarrow> parse_value d' (''null'' @ r') = Some (v, r')"
      by (simp_all add: parse_value.simps)
    then show ?thesis by blast
  next
    case t
    with pv have sl: "scan_literal ''true'' (JBool True) (c # cs) = Some (v, r)" by simp
    from scan_literal_local [OF sl] t
    have "c # cs = ''true'' @ r" "v = JBool True"
      "\<forall>d' r'. same_start r r' \<longrightarrow> parse_value d' (''true'' @ r') = Some (v, r')"
      by (simp_all add: parse_value.simps)
    then show ?thesis by blast
  next
    case f
    with pv have sl: "scan_literal ''false'' (JBool False) (c # cs) = Some (v, r)" by simp
    from scan_literal_local [OF sl] f
    have "c # cs = ''false'' @ r" "v = JBool False"
      "\<forall>d' r'. same_start r r' \<longrightarrow> parse_value d' (''false'' @ r') = Some (v, r')"
      by (simp_all add: parse_value.simps)
    then show ?thesis by blast
  next
    case num
    with pv obtain lit where sn: "scan_number (c # cs) = Some (lit, r)" and v: "v = JNumber lit"
      and cd: "c = CHR ''-'' \<or> is_digit c"
      by (auto split: option.splits if_splits)
    from scan_number_local [OF sn] have sp: "c # cs = lit @ r"
      and loc: "\<forall>r'. same_start r r' \<longrightarrow> scan_number (lit @ r') = Some (lit, r')" by blast+
    from scan_number_shorter [OF sn] sp obtain lit' where lit: "lit = c # lit'"
      by (cases lit) auto
    have "\<forall>d' r'. same_start r r' \<longrightarrow> parse_value d' (lit @ r') = Some (v, r')"
    proof (intro allI impI)
      fix d' r' assume "same_start r r'"
      with loc have "scan_number (c # lit' @ r') = Some (lit, r')" by (simp add: lit)
      with num cd assms(1,2) v show "parse_value d' (lit @ r') = Some (v, r')"
        by (simp add: lit parse_value_other)
    qed
    with sp show ?thesis by blast
  qed
qed

lemma skip_ws_prefix_keep:
  assumes "skip_ws x = t @ r" and "t \<noteq> []"
  shows "skip_ws (t @ r') = t @ r'"
proof -
  from assms obtain a t' where t: "t = a # t'" by (cases t) auto
  with assms(1) skip_ws_start [of x] have "\<not> is_ws a" by auto
  with t show ?thesis by simp
qed

lemma skip_ws_found:
  assumes "skip_ws r \<noteq> []" and "hd (skip_ws r) = c"
  shows "\<exists>w. r = w @ c # tl (skip_ws r) \<and> (\<forall>x. skip_ws (w @ c # x) = c # x)"
proof -
  from skip_ws_split [of r] obtain w where w: "r = w @ skip_ws r" "\<forall>x. skip_ws (w @ x) = skip_ws x"
    by blast
  from assms have sk: "skip_ws r = c # tl (skip_ws r)" by (cases "skip_ws r") auto
  from assms skip_ws_start [of r] have "\<not> is_ws c" by auto
  then have "\<forall>x. skip_ws (w @ c # x) = c # x" using w(2) by simp
  moreover from w(1) sk have "r = w @ c # tl (skip_ws r)" by simp
  ultimately show ?thesis by blast
qed

lemma json_parse_whole:
  assumes "skip_ws x = t @ r" and "t \<noteq> []" and "parse_value 0 t = Some (v, [])"
  shows "json_parse t = Some v"
proof -
  from skip_ws_prefix_keep [OF assms(1,2), of "[]"] have "skip_ws t = t" by simp
  with assms(3) show ?thesis by (simp add: json_parse_def)
qed

lemma parse_local:
  "(\<forall>v r. parse_value d s = Some (v, r) \<longrightarrow>
      (\<exists>t. s = t @ r \<and>
         (\<forall>d' r'. d' \<le> d \<and> same_start r r' \<longrightarrow> parse_value d' (t @ r') = Some (v, r'))))"
  "(\<forall>vs r. parse_elements d s = Some (vs, r) \<longrightarrow>
      (\<exists>t. s = t @ r \<and>
         (\<forall>d' r'. d' \<le> d \<longrightarrow> parse_elements d' (t @ r') = Some (vs, r'))))"
  "(\<forall>ms r. parse_members d s = Some (ms, r) \<longrightarrow>
      (\<exists>t. s = t @ r \<and>
         (\<forall>d' r'. d' \<le> d \<longrightarrow> parse_members d' (t @ r') = Some (ms, r')))
      \<and> (\<forall>(k, raw, v) \<in> set ms. json_parse raw = Some v))"
proof (induction d s and d s and d s rule: parse_value_parse_elements_parse_members.induct)
  case (1 d)
  show ?case by simp
next
  case (2 d c cs)
  show ?case
  proof (intro allI impI)
    fix v r assume pv: "parse_value d (c # cs) = Some (v, r)"
    from skip_ws_split [of cs] obtain w where w: "cs = w @ skip_ws cs"
      "\<forall>x. skip_ws (w @ x) = skip_ws x" by blast
    consider (obj) "c = CHR ''{''" | (arr) "c \<noteq> CHR ''{''" "c = CHR ''[''"
      | (other) "c \<noteq> CHR ''{''" "c \<noteq> CHR ''[''" by blast
    then show "\<exists>t. c # cs = t @ r \<and>
         (\<forall>d' r'. d' \<le> d \<and> same_start r r' \<longrightarrow> parse_value d' (t @ r') = Some (v, r'))"
    proof cases
      case obj
      note pv' = pv [unfolded obj parse_value_obj]
      from pv' have nd: "\<not> max_nesting_depth \<le> d" by (auto split: if_splits)
      show ?thesis
      proof (cases "skip_ws cs \<noteq> [] \<and> hd (skip_ws cs) = CHR ''}''")
        case True
        with pv' nd have r: "r = tl (skip_ws cs)" and v: "v = JObject []" by simp_all
        from skip_ws_found [of cs "CHR ''}''"] True r obtain w' where w': "cs = w' @ CHR ''}'' # r"
          "\<forall>x. skip_ws (w' @ CHR ''}'' # x) = CHR ''}'' # x" by blast
        have "\<forall>d' r'. d' \<le> d \<and> same_start r r' \<longrightarrow>
                parse_value d' ((c # w' @ [CHR ''}'']) @ r') = Some (v, r')"
          using nd w'(2) v obj by (simp add: parse_value_obj)
        moreover have "c # cs = (c # w' @ [CHR ''}'']) @ r" using w'(1) by simp
        ultimately show ?thesis by blast
      next
        case False
        with pv' nd obtain ms where pm: "parse_members (Suc d) (skip_ws cs) = Some (ms, r)"
          and v: "v = JObject (map (\<lambda>(k, raw, v). (k, v)) ms)"
          by (auto split: option.splits)
        from "2.IH"(1) [OF obj nd refl False] pm obtain t1 where t1: "skip_ws cs = t1 @ r"
          "\<forall>d' r'. d' \<le> Suc d \<longrightarrow> parse_members d' (t1 @ r') = Some (ms, r')" by blast
        from parse_shorter(3) [of "Suc d" "skip_ws cs"] pm t1(1) have ne: "t1 \<noteq> []" by auto
        have keep: "skip_ws (t1 @ r') = t1 @ r'" for r'
          by (rule skip_ws_prefix_keep [OF t1(1) ne])
        have hd1: "hd (t1 @ r') = hd (skip_ws cs)" for r'
          using t1(1) ne by (cases t1) auto
        have "\<forall>d' r'. d' \<le> d \<and> same_start r r' \<longrightarrow>
                parse_value d' ((c # w @ t1) @ r') = Some (v, r')"
        proof (intro allI impI)
          fix d' r' assume a: "d' \<le> d \<and> same_start r r'"
          with t1(2) have "parse_members (Suc d') (t1 @ r') = Some (ms, r')" by simp
          moreover from a nd have "\<not> max_nesting_depth \<le> d'" by simp
          moreover have "hd (t1 @ r') \<noteq> CHR ''}''"
            using False hd1 [of r'] t1(1) ne by auto
          ultimately show "parse_value d' ((c # w @ t1) @ r') = Some (v, r')"
            using w(2) keep [of r'] v obj by (simp add: parse_value_obj)
        qed
        moreover have "c # cs = (c # w @ t1) @ r" using w(1) t1(1) by simp
        ultimately show ?thesis by blast
      qed
    next
      case arr
      note pv' = pv [unfolded arr(2) parse_value_arr]
      from pv' have nd: "\<not> max_nesting_depth \<le> d" by (auto split: if_splits)
      show ?thesis
      proof (cases "skip_ws cs \<noteq> [] \<and> hd (skip_ws cs) = CHR '']''")
        case True
        with pv' nd have r: "r = tl (skip_ws cs)" and v: "v = JArray []" by simp_all
        from skip_ws_found [of cs "CHR '']''"] True r obtain w' where w': "cs = w' @ CHR '']'' # r"
          "\<forall>x. skip_ws (w' @ CHR '']'' # x) = CHR '']'' # x" by blast
        have "\<forall>d' r'. d' \<le> d \<and> same_start r r' \<longrightarrow>
                parse_value d' ((c # w' @ [CHR '']'']) @ r') = Some (v, r')"
          using nd w'(2) v arr(2) by (simp add: parse_value_arr)
        moreover have "c # cs = (c # w' @ [CHR '']'']) @ r" using w'(1) by simp
        ultimately show ?thesis by blast
      next
        case False
        with pv' nd obtain vs where pe: "parse_elements (Suc d) (skip_ws cs) = Some (vs, r)"
          and v: "v = JArray vs"
          by (auto split: option.splits)
        from "2.IH"(2) [OF arr(1) arr(2) nd refl False] pe obtain t1 where t1: "skip_ws cs = t1 @ r"
          "\<forall>d' r'. d' \<le> Suc d \<longrightarrow> parse_elements d' (t1 @ r') = Some (vs, r')" by blast
        from parse_shorter(2) [of "Suc d" "skip_ws cs"] pe t1(1) have ne: "t1 \<noteq> []" by auto
        have keep: "skip_ws (t1 @ r') = t1 @ r'" for r'
          by (rule skip_ws_prefix_keep [OF t1(1) ne])
        have hd1: "hd (t1 @ r') = hd (skip_ws cs)" for r'
          using t1(1) ne by (cases t1) auto
        have "\<forall>d' r'. d' \<le> d \<and> same_start r r' \<longrightarrow>
                parse_value d' ((c # w @ t1) @ r') = Some (v, r')"
        proof (intro allI impI)
          fix d' r' assume a: "d' \<le> d \<and> same_start r r'"
          with t1(2) have "parse_elements (Suc d') (t1 @ r') = Some (vs, r')" by simp
          moreover from a nd have "\<not> max_nesting_depth \<le> d'" by simp
          moreover have "hd (t1 @ r') \<noteq> CHR '']''"
            using False hd1 [of r'] t1(1) ne by auto
          ultimately show "parse_value d' ((c # w @ t1) @ r') = Some (v, r')"
            using w(2) keep [of r'] v arr(2) by (simp add: parse_value_arr)
        qed
        moreover have "c # cs = (c # w @ t1) @ r" using w(1) t1(1) by simp
        ultimately show ?thesis by blast
      qed
    next
      case other
      from parse_value_other_local [OF other pv] show ?thesis by blast
    qed
  qed
next
  case (3 d s)
  show ?case
  proof (intro allI impI)
    fix vs r assume pe: "parse_elements d s = Some (vs, r)"
    then obtain v r0 where pv: "parse_value d s = Some (v, r0)"
      using parse_elements_None [of d s] by (cases "parse_value d s") auto
    from "3.IH"(1) pv obtain t0 where t0: "s = t0 @ r0"
      "\<forall>d' r'. d' \<le> d \<and> same_start r0 r' \<longrightarrow> parse_value d' (t0 @ r') = Some (v, r')" by blast
    note pe' = pe [unfolded parse_elements_eq [of d s], unfolded pv, simplified]
    show "\<exists>t. s = t @ r \<and> (\<forall>d' r'. d' \<le> d \<longrightarrow> parse_elements d' (t @ r') = Some (vs, r'))"
    proof (cases "skip_ws r0 \<noteq> [] \<and> hd (skip_ws r0) = CHR '']''")
      case True
      with pe' have r: "r = tl (skip_ws r0)" and vs: "vs = [v]" by simp_all
      from skip_ws_found [of r0 "CHR '']''"] True r obtain w where w: "r0 = w @ CHR '']'' # r"
        "\<forall>x. skip_ws (w @ CHR '']'' # x) = CHR '']'' # x" by blast
      have "\<forall>d' r'. d' \<le> d \<longrightarrow> parse_elements d' ((t0 @ w @ [CHR '']'']) @ r') = Some (vs, r')"
      proof (intro allI impI)
        fix d' :: nat and r' assume a: "d' \<le> d"
        have "same_start r0 (w @ CHR '']'' # r')" unfolding w(1) by (rule same_start_append)
        with t0(2) a have "parse_value d' (t0 @ w @ CHR '']'' # r') = Some (v, w @ CHR '']'' # r')"
          by blast
        then show "parse_elements d' ((t0 @ w @ [CHR '']'']) @ r') = Some (vs, r')"
          using w(2) vs by (simp add: parse_elements_eq [of d' "t0 @ w @ CHR '']'' # r'"])
      qed
      moreover have "s = (t0 @ w @ [CHR '']'']) @ r" using t0(1) w(1) by simp
      ultimately show ?thesis by blast
    next
      case False
      with pe' have c: "skip_ws r0 \<noteq> [] \<and> hd (skip_ws r0) = CHR '',''"
        by (auto split: if_splits)
      let ?s2 = "skip_ws (tl (skip_ws r0))"
      from pe' False c obtain vs' where pe2: "parse_elements d ?s2 = Some (vs', r)"
        and vs: "vs = v # vs'"
        by (auto split: option.splits)
      note lt = parse_elements_test_holds [OF pv]
      from "3.IH"(2) [OF pv refl refl False c refl lt] pe2 obtain t2 where t2: "?s2 = t2 @ r"
        "\<forall>d' r'. d' \<le> d \<longrightarrow> parse_elements d' (t2 @ r') = Some (vs', r')" by blast
      from parse_shorter(2) [of d ?s2] pe2 t2(1) have ne: "t2 \<noteq> []" by auto
      from skip_ws_found [of r0 "CHR '',''"] c obtain w where w: "r0 = w @ CHR '','' # tl (skip_ws r0)"
        "\<forall>x. skip_ws (w @ CHR '','' # x) = CHR '','' # x" by blast
      from skip_ws_split [of "tl (skip_ws r0)"] obtain w2 where w2: "tl (skip_ws r0) = w2 @ ?s2"
        "\<forall>x. skip_ws (w2 @ x) = skip_ws x" by blast
      have keep: "skip_ws (t2 @ r') = t2 @ r'" for r'
        by (rule skip_ws_prefix_keep [OF t2(1) ne])
      have r0: "r0 = w @ CHR '','' # w2 @ t2 @ r" using w(1) w2(1) t2(1) by simp
      have "\<forall>d' r'. d' \<le> d \<longrightarrow>
              parse_elements d' ((t0 @ w @ CHR '','' # w2 @ t2) @ r') = Some (vs, r')"
      proof (intro allI impI)
        fix d' :: nat and r' assume a: "d' \<le> d"
        have "same_start r0 (w @ CHR '','' # w2 @ t2 @ r')"
          using same_start_append [of w "CHR '',''" "w2 @ t2 @ r" "w2 @ t2 @ r'"] r0 by simp
        with t0(2) a have "parse_value d' (t0 @ w @ CHR '','' # w2 @ t2 @ r')
            = Some (v, w @ CHR '','' # w2 @ t2 @ r')" by blast
        moreover from t2(2) a have "parse_elements d' (t2 @ r') = Some (vs', r')" by blast
        ultimately show "parse_elements d' ((t0 @ w @ CHR '','' # w2 @ t2) @ r') = Some (vs, r')"
          using w(2) w2(2) keep [of r'] vs
          by (simp add: parse_elements_eq [of d' "t0 @ w @ CHR '','' # w2 @ t2 @ r'"])
      qed
      moreover have "s = (t0 @ w @ CHR '','' # w2 @ t2) @ r" using t0(1) r0 by simp
      ultimately show ?thesis by blast
    qed
  qed
next
  case (4 d s)
  show ?case
  proof (intro allI impI)
    fix ms r assume pm: "parse_members d s = Some (ms, r)"
    from pm obtain key r1 v r3 where h: "s \<noteq> []" "hd s = CHR 0x22"
      "scan_string (tl s) = Some (key, r1)"
      "skip_ws r1 \<noteq> []" "hd (skip_ws r1) = CHR '':''"
      "length (skip_ws (tl (skip_ws r1))) < length s"
      "parse_value d (skip_ws (tl (skip_ws r1))) = Some (v, r3)"
      by (rule parse_members_Some)
    let ?s2 = "skip_ws (tl (skip_ws r1))"
    have c1: "s \<noteq> [] \<and> hd s = CHR 0x22" and c2: "skip_ws r1 \<noteq> [] \<and> hd (skip_ws r1) = CHR '':''"
      using h by simp_all
    from "4.IH"(1) [OF c1 h(3) refl refl c2 refl h(6)] h(7) obtain t2 where t2: "?s2 = t2 @ r3"
      "\<forall>d' r'. d' \<le> d \<and> same_start r3 r' \<longrightarrow> parse_value d' (t2 @ r') = Some (v, r')"
      by blast
    from parse_shorter(1) [of d ?s2] h(7) t2(1) have ne2: "t2 \<noteq> []" by auto
    have raw: "take (length ?s2 - length r3) ?s2 = t2" using t2(1) by simp
    have keep2: "skip_ws (t2 @ r') = t2 @ r'" for r'
      by (rule skip_ws_prefix_keep [OF t2(1) ne2])
    have "same_start r3 []" by (simp add: same_start_def)
    with t2(2) have "parse_value 0 (t2 @ []) = Some (v, [])" by blast
    then have "parse_value 0 t2 = Some (v, [])" by simp
    from json_parse_whole [OF t2(1) ne2 this] have jp: "json_parse t2 = Some v" .
    from h(1,2) have s: "s = CHR 0x22 # tl s" by (cases s) auto
    from scan_string_local [OF h(3)] obtain tk where tk: "tl s = tk @ r1"
      "\<forall>r'. scan_string (tk @ r') = Some (key, r')" by blast
    from skip_ws_found [OF h(4,5)] obtain w1 where w1: "r1 = w1 @ CHR '':'' # tl (skip_ws r1)"
      "\<forall>x. skip_ws (w1 @ CHR '':'' # x) = CHR '':'' # x" by blast
    from skip_ws_split [of "tl (skip_ws r1)"] obtain w2 where w2: "tl (skip_ws r1) = w2 @ ?s2"
      "\<forall>x. skip_ws (w2 @ x) = skip_ws x" by blast
    note pm' = pm [unfolded parse_members_eq [OF h(1-5,7)] raw]
    have upto: "s = CHR 0x22 # tk @ w1 @ CHR '':'' # w2 @ t2 @ r3"
      using s tk(1) w1(1) w2(1) t2(1) by simp
    have step: "parse_members d' (CHR 0x22 # tk @ w1 @ CHR '':'' # w2 @ t2 @ x) =
        (if skip_ws x \<noteq> [] \<and> hd (skip_ws x) = CHR ''}'' then
           Some ([(unquote key, t2, v)], tl (skip_ws x))
         else if skip_ws x \<noteq> [] \<and> hd (skip_ws x) = CHR '','' then
           (case parse_members d' (skip_ws (tl (skip_ws x))) of
              None \<Rightarrow> None
            | Some (ms, r6) \<Rightarrow> Some ((unquote key, t2, v) # ms, r6))
         else None)"
      if a: "d' \<le> d" and ss: "same_start r3 x" for d' x
    proof -
      let ?s' = "CHR 0x22 # tk @ w1 @ CHR '':'' # w2 @ t2 @ x"
      let ?r1' = "w1 @ CHR '':'' # w2 @ t2 @ x"
      have a1: "?s' \<noteq> []" and a2: "hd ?s' = CHR 0x22" by simp_all
      have a3: "scan_string (tl ?s') = Some (key, ?r1')" using tk(2) by simp
      have sk1: "skip_ws ?r1' = CHR '':'' # w2 @ t2 @ x" using w1(2) by simp
      have a4: "skip_ws ?r1' \<noteq> []" and a5: "hd (skip_ws ?r1') = CHR '':''" using sk1 by simp_all
      have sk2: "skip_ws (tl (skip_ws ?r1')) = t2 @ x" using sk1 w2(2) keep2 [of x] by simp
      from t2(2) a ss have "parse_value d' (t2 @ x) = Some (v, x)" by blast
      then have a6: "parse_value d' (skip_ws (tl (skip_ws ?r1'))) = Some (v, x)" using sk2 by simp
      have tk2: "take (length (t2 @ x) - length x) (t2 @ x) = t2" by simp
      show ?thesis
        unfolding parse_members_eq [OF a1 a2 a3 a4 a5 a6] sk2 tk2 by (rule refl)
    qed
    show "(\<exists>t. s = t @ r \<and> (\<forall>d' r'. d' \<le> d \<longrightarrow> parse_members d' (t @ r') = Some (ms, r')))
        \<and> (\<forall>(k, raw, v) \<in> set ms. json_parse raw = Some v)"
    proof (cases "skip_ws r3 \<noteq> [] \<and> hd (skip_ws r3) = CHR ''}''")
      case True
      with pm' have r: "r = tl (skip_ws r3)" and ms: "ms = [(unquote key, t2, v)]" by simp_all
      from skip_ws_found [of r3 "CHR ''}''"] True r obtain w3 where w3: "r3 = w3 @ CHR ''}'' # r"
        "\<forall>x. skip_ws (w3 @ CHR ''}'' # x) = CHR ''}'' # x" by blast
      let ?t = "CHR 0x22 # tk @ w1 @ CHR '':'' # w2 @ t2 @ w3 @ [CHR ''}'']"
      have "\<forall>d' r'. d' \<le> d \<longrightarrow> parse_members d' (?t @ r') = Some (ms, r')"
      proof (intro allI impI)
        fix d' :: nat and r' assume a: "d' \<le> d"
        have ss: "same_start r3 (w3 @ CHR ''}'' # r')" unfolding w3(1) by (rule same_start_append)
        from step [OF a ss] w3(2) ms show "parse_members d' (?t @ r') = Some (ms, r')" by simp
      qed
      moreover have "s = ?t @ r" using upto w3(1) by simp
      ultimately show ?thesis using ms jp by auto
    next
      case False
      with pm' have c: "skip_ws r3 \<noteq> [] \<and> hd (skip_ws r3) = CHR '',''"
        by (auto split: if_splits)
      let ?s5 = "skip_ws (tl (skip_ws r3))"
      note lt = parse_members_second_test_holds [OF h(7) h(6)]
      from pm' False c obtain ms' where pm2: "parse_members d ?s5 = Some (ms', r)"
        and ms: "ms = (unquote key, t2, v) # ms'"
        by (auto split: option.splits)
      from "4.IH"(2) [OF c1 h(3) refl refl c2 refl h(6) h(7) refl refl refl False c refl lt] pm2
      obtain t5 where t5: "?s5 = t5 @ r"
        "\<forall>d' r'. d' \<le> d \<longrightarrow> parse_members d' (t5 @ r') = Some (ms', r')"
        and raws: "\<forall>(k, raw, v) \<in> set ms'. json_parse raw = Some v" by blast
      from parse_shorter(3) [of d ?s5] pm2 t5(1) have ne5: "t5 \<noteq> []" by auto
      have keep5: "skip_ws (t5 @ r') = t5 @ r'" for r'
        by (rule skip_ws_prefix_keep [OF t5(1) ne5])
      from skip_ws_found [of r3 "CHR '',''"] c obtain w3 where w3: "r3 = w3 @ CHR '','' # tl (skip_ws r3)"
        "\<forall>x. skip_ws (w3 @ CHR '','' # x) = CHR '','' # x" by blast
      from skip_ws_split [of "tl (skip_ws r3)"] obtain w4 where w4: "tl (skip_ws r3) = w4 @ ?s5"
        "\<forall>x. skip_ws (w4 @ x) = skip_ws x" by blast
      have r3: "r3 = w3 @ CHR '','' # w4 @ t5 @ r" using w3(1) w4(1) t5(1) by simp
      let ?t = "CHR 0x22 # tk @ w1 @ CHR '':'' # w2 @ t2 @ w3 @ CHR '','' # w4 @ t5"
      have "\<forall>d' r'. d' \<le> d \<longrightarrow> parse_members d' (?t @ r') = Some (ms, r')"
      proof (intro allI impI)
        fix d' :: nat and r' assume a: "d' \<le> d"
        have ss: "same_start r3 (w3 @ CHR '','' # w4 @ t5 @ r')"
          using same_start_append [of w3 "CHR '',''" "w4 @ t5 @ r" "w4 @ t5 @ r'"] r3 by simp
        from t5(2) a have "parse_members d' (t5 @ r') = Some (ms', r')" by blast
        with step [OF a ss] w3(2) w4(2) keep5 [of r'] ms
        show "parse_members d' (?t @ r') = Some (ms, r')" by simp
      qed
      moreover have "s = ?t @ r" using upto r3 by simp
      ultimately show ?thesis using ms jp raws by auto
    qed
  qed
qed

lemma raw_members_values:
  assumes "json_parse b = Some (JObject ms)"
  shows "list_all2 (\<lambda>kr kv. fst kr = fst kv \<and> json_parse (snd kr) = Some (snd kv)) (raw_members b) ms"
proof -
  from assms obtain r where pv: "parse_value 0 (skip_ws b) = Some (JObject ms, r)"
    by (auto simp: json_parse_def split: option.splits if_splits)
  then obtain c cs where sb: "skip_ws b = c # cs"
    by (cases "skip_ws b") auto
  note po = parse_value_object [OF pv [unfolded sb]]
  show ?thesis
  proof (cases "skip_ws cs \<noteq> [] \<and> hd (skip_ws cs) = CHR ''}''")
    case True
    with po have "ms = []" by simp
    moreover from True have "parse_members 1 (skip_ws cs) = None"
      by (rule parse_members_not_brace)
    ultimately show ?thesis by (simp add: raw_members_def sb)
  next
    case False
    with po obtain ms' where pm: "parse_members (Suc 0) (skip_ws cs) = Some (ms', r)"
      and ms: "ms = map (\<lambda>(k, raw, v). (k, v)) ms'"
      by auto
    from parse_local(3) [of "Suc 0" "skip_ws cs"] pm
    have raws: "\<forall>(k, raw, v) \<in> set ms'. json_parse raw = Some v" by blast
    have rm: "raw_members b = map (\<lambda>(k, raw, v). (k, raw)) ms'"
      using pm by (simp add: raw_members_def sb)
    show ?thesis
      unfolding rm ms list_all2_map1 list_all2_map2
      using raws by (auto intro!: list_all2_same [THEN iffD2] simp: case_prod_beta)
  qed
qed

lemma last_member_value:
  assumes "list_all2 (\<lambda>kr kv. fst kr = fst kv \<and> P (snd kr) (snd kv)) xs ys"
    and "map_of (rev ys) k = Some v"
  shows "\<exists>raw. map_of (rev xs) k = Some raw \<and> P raw v"
  using assms
proof (induction xs ys rule: list_all2_induct)
  case Nil
  then show ?case by simp
next
  case (Cons x xs y ys)
  show ?case
  proof (cases "map_of (rev ys) k")
    case None
    with Cons.prems have yk: "fst y = k" "snd y = v"
      by (auto simp: map_add_def split: if_splits prod.splits)
    from Cons.hyps(2) have "map fst xs = map fst ys"
      by (induction rule: list_all2_induct) auto
    then have "fst ` set xs = fst ` set ys" by (metis set_map)
    with None have "map_of (rev xs) k = None" by (simp add: map_of_eq_None_iff)
    with Cons.hyps(1) yk show ?thesis
      by (cases x) (auto simp: map_add_def)
  next
    case (Some v')
    with Cons.prems have "v' = v" by (simp add: map_add_def)
    with Some Cons.IH obtain raw where "map_of (rev xs) k = Some raw" "P raw v" by blast
    then show ?thesis by (auto simp: map_add_def)
  qed
qed

lemma raw_field_value:
  assumes "json_parse b = Some (JObject ms)" and "map_of (rev ms) k = Some v"
  shows "\<exists>raw. map_of (rev (raw_members b)) k = Some raw \<and> json_parse raw = Some v"
  using last_member_value [OF raw_members_values [OF assms(1)] assms(2)] .

section \<open>The transport and the query, case by case\<close>

lemma SendRequest_Response:
  assumes "NewRequest_error w meth u = None"
    and "Do w \<lparr>req_method = meth, req_url = u, req_header = h, req_body = b\<rparr> = Response code resp"
  shows "SendRequest w sent meth u h b =
           (sent @ [\<lparr>req_method = meth, req_url = u, req_header = h, req_body = b\<rparr>], resp, code,
            if code \<noteq> successStatusCode then Unmarshal_map resp else None)"
  using assms by (simp add: SendRequest_def Let_def split: option.splits)

lemma SendRequest_ReadError:
  assumes "NewRequest_error w meth u = None"
    and "Do w \<lparr>req_method = meth, req_url = u, req_header = h, req_body = b\<rparr> = ReadError code e"
  shows "SendRequest w sent meth u h b =
           (sent @ [\<lparr>req_method = meth, req_url = u, req_header = h, req_body = b\<rparr>], [], code, Some e)"
  using assms by (simp add: SendRequest_def Let_def)

lemma ExecuteQuery_marshalled:
  assumes "Marshal w (query_payload q v) = Inr b"
  shows "ExecuteQuery w sent c q v =
     (let (sent', response, statusCode, err) =
            SendRequest w sent ''POST'' (URL c) (req_header (query_request c b)) b
      in if err \<noteq> None \<or> statusCode \<noteq> successStatusCode then
           (sent', Inr \<lparr>Data = None, StatusCode = statusCode,
                         Error = http_error_text w err statusCode,
                         HasNextPage = False, HasPrevPage = False,
                         NextPageFunc = None, PrevPageFunc = None\<rparr>)
         else
           (case Unmarshal_raw_map response of
              Inl err \<Rightarrow> (sent', Inl err)
            | Inr respData \<Rightarrow>
                (case respData ''errors'' of
                   Some errorField \<Rightarrow>
                     (sent', Inr \<lparr>Data = None, StatusCode = statusCode, Error = errorField,
                                   HasNextPage = False, HasPrevPage = False,
                                   NextPageFunc = None, PrevPageFunc = None\<rparr>)
                 | None \<Rightarrow>
                     (sent', Inr \<lparr>Data = respData ''data'', StatusCode = statusCode, Error = [],
                                   HasNextPage = False, HasPrevPage = False,
                                   NextPageFunc = None, PrevPageFunc = None\<rparr>))))"
  using assms by (simp add: ExecuteQuery_def query_payload_def query_request_def)

lemma ExecuteQuery_200:
  assumes "Marshal w (query_payload q v) = Inr b"
    and "NewRequest_error w ''POST'' (URL c) = None"
    and "Do w (query_request c b) = Response 200 resp"
  shows "snd (ExecuteQuery w sent c q v) =
     (case Unmarshal_raw_map resp of
        Inl err \<Rightarrow> Inl err
      | Inr respData \<Rightarrow>
          (case respData ''errors'' of
             Some errorField \<Rightarrow>
               Inr \<lparr>Data = None, StatusCode = 200, Error = errorField,
                     HasNextPage = False, HasPrevPage = False,
                     NextPageFunc = None, PrevPageFunc = None\<rparr>
           | None \<Rightarrow>
               Inr \<lparr>Data = respData ''data'', StatusCode = 200, Error = [],
                     HasNextPage = False, HasPrevPage = False,
                     NextPageFunc = None, PrevPageFunc = None\<rparr>))"
proof -
  let ?h = "req_header (query_request c b)"
  have "Do w \<lparr>req_method = ''POST'', req_url = URL c, req_header = ?h, req_body = b\<rparr> = Response 200 resp"
    using assms(3) by (simp add: query_request_def)
  from SendRequest_Response [OF assms(2) this, of sent] show ?thesis
    by (simp add: ExecuteQuery_marshalled [OF assms(1)] successStatusCode_def
             split: sum.splits option.splits)
qed

lemma Unmarshal_raw_map_object:
  "json_parse b = Some (JObject ms) \<Longrightarrow> Unmarshal_raw_map b = Inr (map_of (rev (raw_members b)))"
  by (simp add: Unmarshal_raw_map_def)

lemma raw_field_None:
  assumes "json_parse b = Some (JObject ms)"
  shows "map_of (rev (raw_members b)) k = None \<longleftrightarrow> k \<notin> fst ` set ms"
proof -
  have "fst ` set (raw_members b) = fst ` set ms"
    using raw_members_keys [OF assms] by (metis set_map)
  then show ?thesis by (simp add: map_of_eq_None_iff)
qed

lemma raw_members_nonempty:
  assumes "(k, raw) \<in> set (raw_members b)"
  shows "raw \<noteq> []"
proof (cases "skip_ws b")
  case Nil
  with assms show ?thesis by (simp add: raw_members_def)
next
  case (Cons c cs)
  show ?thesis
  proof (cases "parse_members 1 (skip_ws cs)")
    case None
    with Cons assms show ?thesis by (simp add: raw_members_def)
  next
    case (Some p)
    obtain ms r where p: "p = (ms, r)" by (cases p)
    from Some p Cons have "raw_members b = map (\<lambda>(k, raw, v). (k, raw)) ms"
      by (simp add: raw_members_def)
    with assms obtain v where mem: "(k, raw, v) \<in> set ms" by auto
    from parse_shorter(3) [of 1 "skip_ws cs"] Some p
    have "\<forall>(k, raw, v) \<in> set ms. raw \<noteq> []" by blast
    with mem show ?thesis by auto
  qed
qed

lemma server_run:
  "Marshal (server code resp) (query_payload q ()) = Inr ''{}''"
  "NewRequest_error (server code resp) ''POST'' (URL c) = None"
  "Do (server code resp) (query_request c ''{}'') = Response code resp"
  by (simp_all add: server_def)

section \<open>Decoding and failing, case by case\<close>

lemma http_error_text_nonempty: "http_error_text w err code \<noteq> []"
  by (simp add: http_error_text_def)

lemma GetTokenBalances_snd:
  "snd (GetTokenBalances w sent c v) =
     (case snd (ExecuteQuery w sent c token_balances_query v) of
        Inl e \<Rightarrow> Inl e
      | Inr r \<Rightarrow> Unmarshal_respData (case Data r of None \<Rightarrow> [] | Some d \<Rightarrow> d))"
  by (simp add: GetTokenBalances_def split: prod.splits sum.splits)

lemma Unmarshal_respData_nil: "Unmarshal_respData [] = Inl SyntaxError"
  by (simp add: Unmarshal_respData_def json_parse_def)

lemma ExecuteQuery_error_no_data:
  assumes "snd (ExecuteQuery w sent c q v) = Inr r" and "Error r \<noteq> []"
  shows "Data r = None"
  using assms
  by (auto simp: ExecuteQuery_def Let_def split: sum.splits option.splits prod.splits if_splits)

lemma errors_run:
  "snd (ExecuteQuery (server 200 ''{\"errors\":\"boom\"}'') [] (NewAirstackClient ''key'') q ())
     = Inr \<lparr>Data = None, StatusCode = 200, Error = ''\"boom\"'',
             HasNextPage = False, HasPrevPage = False,
             NextPageFunc = None, PrevPageFunc = None\<rparr>"
proof -
  have jp: "json_parse ''{\"errors\":\"boom\"}'' = Some (JObject [(''errors'', JString ''boom'')])"
    by code_simp
  have rm: "raw_members ''{\"errors\":\"boom\"}'' = [(''errors'', ''\"boom\"'')]"
    by code_simp
  show ?thesis
    by (simp add: ExecuteQuery_200 [OF server_run] Unmarshal_raw_map_object [OF jp] rm)
qed

lemma empty_object_run:
  "snd (ExecuteQuery (server 200 ''{}'') [] (NewAirstackClient ''key'') q ())
     = Inr \<lparr>Data = None, StatusCode = 200, Error = [],
             HasNextPage = False, HasPrevPage = False,
             NextPageFunc = None, PrevPageFunc = None\<rparr>"
proof -
  have jp: "json_parse ''{}'' = Some (JObject [])"
    by code_simp
  have rm: "raw_members ''{}'' = []"
    by code_simp
  show ?thesis
    by (simp add: ExecuteQuery_200 [OF server_run] Unmarshal_raw_map_object [OF jp] rm)
qed

text \<open>Fields are found by name: a well-formed record is stored field by field, whatever the order.\<close>

lemma lower_upper: "lower_ascii (upper_ascii c) = lower_ascii c"
proof (cases "in_range 97 122 c")
  case True
  define n where "n = (of_char c :: nat)"
  from True have n: "97 \<le> n" "n \<le> 122" by (simp_all add: in_range_def n_def)
  then have oc: "(of_char (char_of (n - 32)) :: nat) = n - 32" by simp
  have up: "upper_ascii c = char_of (n - 32)" using True by (simp add: upper_ascii_def n_def)
  from n have rg: "65 \<le> n - 32" "n - 32 \<le> 90" by arith+
  with oc have "lower_ascii (char_of (n - 32)) = char_of (n - 32 + 32)"
    by (simp add: lower_ascii_def in_range_def)
  also from n have "n - 32 + 32 = n" by simp
  also have "char_of n = c" by (simp add: n_def)
  finally have "lower_ascii (upper_ascii c) = c" by (simp add: up)
  moreover from n have "lower_ascii c = c" by (simp add: lower_ascii_def in_range_def n_def)
  ultimately show ?thesis by simp
next
  case False
  then show ?thesis by (simp add: upper_ascii_def)
qed

lemma fold_name_ascii: "list_all is_ascii k \<Longrightarrow> fold_name k = map upper_ascii k"
proof (induction k)
  case Nil
  show ?case by simp
next
  case (Cons a k)
  then have "(of_char a :: nat) < 128" by (simp add: is_ascii_def)
  then have "a \<noteq> CHR 0xE2" "a \<noteq> CHR 0xC5" by auto
  with Cons show ?case by simp
qed

lemma find_field_unrelated:
  assumes "unrelated_key names k" and "list_all (list_all is_ascii) names"
  shows "find_field names k = None"
proof -
  from assms(1) have ka: "list_all is_ascii k"
    and nl: "map lower_ascii k \<notin> set (map (map lower_ascii) names)"
    by (simp_all add: unrelated_key_def)
  from nl have "k \<notin> set names" by auto
  moreover have "fold_name n \<noteq> fold_name k" if n: "n \<in> set names" for n
  proof
    assume eq: "fold_name n = fold_name k"
    from n assms(2) have "list_all is_ascii n" by (simp add: list_all_iff)
    with eq ka have "map upper_ascii n = map upper_ascii k" by (simp add: fold_name_ascii)
    then have "map lower_ascii (map upper_ascii n) = map lower_ascii (map upper_ascii k)" by simp
    then have "map lower_ascii n = map lower_ascii k" by (simp add: lower_upper comp_def)
    moreover from n have "map lower_ascii n \<in> set (map (map lower_ascii) names)" by simp
    ultimately show False using nl by simp
  qed
  ultimately show ?thesis
    by (simp add: find_field_def find_None_iff)
qed

lemma find_field_exact: "k \<in> set names \<Longrightarrow> find_field names k = Some k"
  by (simp add: find_field_def)

lemma names_ascii: "list_all (list_all is_ascii) TokenBalance_names"
  "list_all (list_all is_ascii) [''TokenBalances'']" "list_all (list_all is_ascii) [''TokenBalance'']"
  by (simp_all add: TokenBalance_names_def is_ascii_def)

lemma unrelated_not_name: "unrelated_key names k \<Longrightarrow> n \<in> set names \<Longrightarrow> k \<noteq> n"
  by (auto simp: unrelated_key_def)

lemma store_field_unrelated:
  "unrelated_key TokenBalance_names (fst m) \<Longrightarrow> store_TokenBalance_field m (t, e) = (t, e)"
  using find_field_unrelated [OF _ names_ascii(1), of "fst m"]
  by (simp add: store_TokenBalance_field_def TokenBalance_names_def)

lemma store_field_named:
  assumes "snd m = JString s"
  shows "fst m = ''amount'' \<Longrightarrow> store_TokenBalance_field m (t, e) = (t\<lparr>Amount := s\<rparr>, e)"
    and "fst m = ''formattedAmount'' \<Longrightarrow> store_TokenBalance_field m (t, e) = (t\<lparr>FormattedAmount := s\<rparr>, e)"
    and "fst m = ''blockchain'' \<Longrightarrow> store_TokenBalance_field m (t, e) = (t\<lparr>Blockchain := s\<rparr>, e)"
    and "fst m = ''tokenAddress'' \<Longrightarrow> store_TokenBalance_field m (t, e) = (t\<lparr>TokenAddress := s\<rparr>, e)"
    and "fst m = ''tokenId'' \<Longrightarrow> store_TokenBalance_field m (t, e) = (t\<lparr>TokenId := s\<rparr>, e)"
  using assms
  by (simp_all add: store_TokenBalance_field_def find_field_def store_string_def)

lemma store_fields:
  assumes "list_all (\<lambda>m. (fst m \<in> set TokenBalance_names \<and> (\<exists>s. snd m = JString s))
                          \<or> unrelated_key TokenBalance_names (fst m)) ms"
  shows "foldl (\<lambda>st m. store_TokenBalance_field m st) (t, e) ms =
           (\<lparr>Amount = field_after ''amount'' ms (Amount t),
             FormattedAmount = field_after ''formattedAmount'' ms (FormattedAmount t),
             Blockchain = field_after ''blockchain'' ms (Blockchain t),
             TokenAddress = field_after ''tokenAddress'' ms (TokenAddress t),
             TokenId = field_after ''tokenId'' ms (TokenId t)\<rparr>, e)"
  using assms
proof (induction ms arbitrary: t)
  case Nil
  show ?case by simp
next
  case (Cons m ms)
  from Cons.prems have rest: "list_all (\<lambda>m. (fst m \<in> set TokenBalance_names \<and> (\<exists>s. snd m = JString s))
                          \<or> unrelated_key TokenBalance_names (fst m)) ms"
    and hd: "(fst m \<in> set TokenBalance_names \<and> (\<exists>s. snd m = JString s))
              \<or> unrelated_key TokenBalance_names (fst m)" by simp_all
  note IH = Cons.IH [OF rest]
  from hd show ?case
  proof
    assume "unrelated_key TokenBalance_names (fst m)"
    then have st: "store_TokenBalance_field m (t, e) = (t, e)"
      and ne: "fst m \<noteq> ''amount''" "fst m \<noteq> ''formattedAmount''" "fst m \<noteq> ''blockchain''"
        "fst m \<noteq> ''tokenAddress''" "fst m \<noteq> ''tokenId''"
      by (simp_all add: store_field_unrelated unrelated_not_name TokenBalance_names_def)
    show ?thesis by (simp add: st IH ne)
  next
    assume "fst m \<in> set TokenBalance_names \<and> (\<exists>s. snd m = JString s)"
    then obtain s where s: "snd m = JString s" and
      k: "fst m = ''amount'' \<or> fst m = ''formattedAmount'' \<or> fst m = ''blockchain''
          \<or> fst m = ''tokenAddress'' \<or> fst m = ''tokenId''"
      by (auto simp: TokenBalance_names_def)
    from k show ?thesis
      by (elim disjE) (simp_all add: store_field_named [OF s] IH s)
  qed
qed

lemma field_after_absent: "member_values n ms = [] \<Longrightarrow> field_after n ms cur = cur"
  by (induction ms arbitrary: cur) (auto simp: member_values_def split: if_splits)

lemma field_after_single: "member_values n ms = [JString x] \<Longrightarrow> field_after n ms cur = x"
proof (induction ms arbitrary: cur)
  case Nil
  then show ?case by (simp add: member_values_def)
next
  case (Cons m ms)
  show ?case
  proof (cases "fst m = n")
    case True
    with Cons.prems have "snd m = JString x" "member_values n ms = []"
      by (simp_all add: member_values_def)
    with True show ?thesis by (simp add: field_after_absent)
  next
    case False
    with Cons.prems have "member_values n ms = [JString x]" by (simp add: member_values_def)
    with False Cons.IH show ?thesis by simp
  qed
qed

lemma member_values_mem:
  "m \<in> set ms \<Longrightarrow> fst m = n \<Longrightarrow> snd m \<in> set (member_values n ms)"
  by (auto simp: member_values_def)

lemma store_well_formed_record:
  assumes "well_formed_record j t"
  shows "store_TokenBalance j cur = (t, False)"
proof -
  from assms obtain ms where j: "j = JObject ms" by (cases j) (auto simp: well_formed_record_def)
  from assms j have la: "list_all (\<lambda>m. fst m \<in> set TokenBalance_names \<or> unrelated_key TokenBalance_names (fst m)) ms"
    and mv: "member_values ''amount'' ms = [JString (Amount t)]"
      "member_values ''formattedAmount'' ms = [JString (FormattedAmount t)]"
      "member_values ''blockchain'' ms = [JString (Blockchain t)]"
      "member_values ''tokenAddress'' ms = [JString (TokenAddress t)]"
      "member_values ''tokenId'' ms = [JString (TokenId t)]"
    by (simp_all add: well_formed_record_def)
  have str: "\<exists>s. snd m = JString s" if m: "m \<in> set ms" and n: "fst m \<in> set TokenBalance_names" for m
  proof -
    from n have "fst m = ''amount'' \<or> fst m = ''formattedAmount'' \<or> fst m = ''blockchain''
          \<or> fst m = ''tokenAddress'' \<or> fst m = ''tokenId''"
      by (auto simp: TokenBalance_names_def)
    then show ?thesis
      using member_values_mem [OF m] mv by (elim disjE) fastforce+
  qed
  have "list_all (\<lambda>m. (fst m \<in> set TokenBalance_names \<and> (\<exists>s. snd m = JString s))
                          \<or> unrelated_key TokenBalance_names (fst m)) ms"
    using la str by (auto simp: list_all_iff)
  from store_fields [OF this, of cur False] show ?thesis
    by (simp add: j store_TokenBalance_def field_after_single [OF mv(1)] field_after_single [OF mv(2)]
          field_after_single [OF mv(3)] field_after_single [OF mv(4)] field_after_single [OF mv(5)])
qed

lemma store_elems_well_formed:
  "list_all2 well_formed_record vs recs \<Longrightarrow> store_elems vs backing = (recs, False)"
proof (induction vs recs arbitrary: backing rule: list_all2_induct)
  case Nil
  show ?case by simp
next
  case (Cons v vs t recs)
  then show ?case by (simp add: store_well_formed_record)
qed

lemma store_slice_well_formed:
  assumes "list_all2 well_formed_record vs recs"
  shows "store_slice (JArray vs) ([], []) = ((recs, []), False)"
proof (cases vs)
  case Nil
  with assms show ?thesis by (simp add: store_slice_def)
next
  case (Cons a list)
  with store_elems_well_formed [OF assms, of "[]"] show ?thesis
    by (simp add: store_slice_def)
qed

lemma single_member_fold:
  fixes g :: "json \<Rightarrow> 'a \<Rightarrow> 'a \<times> bool"
  assumes "list_all is_ascii n"
  shows "list_all (\<lambda>m. fst m = n \<or> unrelated_key [n] (fst m)) ms \<Longrightarrow> member_values n ms = [] \<Longrightarrow>
     foldl (\<lambda>(sl, e) m.
              case find_field [n] (fst m) of
                None \<Rightarrow> (sl, e)
              | Some f \<Rightarrow> (let (sl', e') = g (snd m) sl in (sl', e \<or> e')))
           (sl, e) ms = (sl, e)"
    and "list_all (\<lambda>m. fst m = n \<or> unrelated_key [n] (fst m)) ms \<Longrightarrow> member_values n ms = [v] \<Longrightarrow>
     foldl (\<lambda>(sl, e) m.
              case find_field [n] (fst m) of
                None \<Rightarrow> (sl, e)
              | Some f \<Rightarrow> (let (sl', e') = g (snd m) sl in (sl', e \<or> e')))
           (sl, e) ms = (fst (g v sl), e \<or> snd (g v sl))"
proof -
  let ?F = "\<lambda>(sl, e) m.
              case find_field [n] (fst m) of
                None \<Rightarrow> (sl, e)
              | Some f \<Rightarrow> (let (sl', e') = g (snd m) sl in (sl', e \<or> e'))"
  have na: "list_all (list_all is_ascii) [n]" using assms by simp
  have un: "?F (sl, e) m = (sl, e)" if "unrelated_key [n] (fst m)" for sl e m
    using find_field_unrelated [OF that na] by simp
  have nm: "?F (sl, e) m = (fst (g (snd m) sl), e \<or> snd (g (snd m) sl))" if "fst m = n" for sl e m
    using that by (simp add: find_field_def case_prod_beta)
  have differs: "fst m \<noteq> n" if "unrelated_key [n] (fst m)" for m :: "bytes \<times> json"
    using unrelated_not_name [OF that, of n] by simp
  have absent: "foldl ?F (sl, e) ms = (sl, e)"
    if "list_all (\<lambda>m. fst m = n \<or> unrelated_key [n] (fst m)) ms" "member_values n ms = []"
    for sl e ms
    using that
  proof (induction ms arbitrary: sl e)
    case Nil
    show ?case by simp
  next
    case (Cons m ms)
    from Cons.prems(2) have ne: "fst m \<noteq> n" and rest: "member_values n ms = []"
      by (auto simp: member_values_def split: if_splits)
    with Cons.prems(1) have "unrelated_key [n] (fst m)"
      and la: "list_all (\<lambda>m. fst m = n \<or> unrelated_key [n] (fst m)) ms" by simp_all
    then have "?F (sl, e) m = (sl, e)" by (simp only: un)
    then have "foldl ?F (sl, e) (m # ms) = foldl ?F (sl, e) ms" by (simp only: foldl_Cons)
    with Cons.IH [OF la rest] show ?case by simp
  qed
  show "list_all (\<lambda>m. fst m = n \<or> unrelated_key [n] (fst m)) ms \<Longrightarrow> member_values n ms = [] \<Longrightarrow>
     foldl ?F (sl, e) ms = (sl, e)"
    by (rule absent)
  show "list_all (\<lambda>m. fst m = n \<or> unrelated_key [n] (fst m)) ms \<Longrightarrow> member_values n ms = [v] \<Longrightarrow>
     foldl ?F (sl, e) ms = (fst (g v sl), e \<or> snd (g v sl))"
  proof (induction ms arbitrary: sl e)
    case Nil
    then show ?case by (simp add: member_values_def)
  next
    case (Cons m ms)
    from Cons.prems(1) have la: "list_all (\<lambda>m. fst m = n \<or> unrelated_key [n] (fst m)) ms"
      and hd: "fst m = n \<or> unrelated_key [n] (fst m)" by simp_all
    show ?case
    proof (cases "fst m = n")
      case True
      with Cons.prems(2) have v: "snd m = v" and rest: "member_values n ms = []"
        by (simp_all add: member_values_def)
      have "?F (sl, e) m = (fst (g v sl), e \<or> snd (g v sl))" using nm [OF True] v by simp
      then have "foldl ?F (sl, e) (m # ms) = foldl ?F (fst (g v sl), e \<or> snd (g v sl)) ms"
        by (simp only: foldl_Cons)
      with absent [OF la rest] show ?thesis by simp
    next
      case False
      with hd have u: "unrelated_key [n] (fst m)" by simp
      from False Cons.prems(2) have rest: "member_values n ms = [v]" by (simp add: member_values_def)
      have "?F (sl, e) m = (sl, e)" using u by (simp only: un)
      then have "foldl ?F (sl, e) (m # ms) = foldl ?F (sl, e) ms" by (simp only: foldl_Cons)
      with Cons.IH [OF la rest] show ?thesis by simp
    qed
  qed
qed

lemma only_member_Some:
  assumes "only_member n j = Some v"
  obtains ms where "j = JObject ms" "list_all (\<lambda>m. fst m = n \<or> unrelated_key [n] (fst m)) ms"
    "member_values n ms = [v]"
proof -
  from assms obtain ms where j: "j = JObject ms" by (cases j) (auto simp: only_member_def)
  from assms j have la: "list_all (\<lambda>m. fst m = n \<or> unrelated_key [n] (fst m)) ms"
    by (auto simp: only_member_def split: if_splits)
  from assms j la have "member_values n ms = [v]"
    by (auto simp: only_member_def split: if_splits list.splits)
  with j la show ?thesis by (rule that)
qed

lemma store_well_formed_data:
  assumes "well_formed_data dv recs"
  shows "store_respData dv ([], []) = ((recs, []), False)"
proof -
  from assms obtain tb vs where tb: "only_member ''TokenBalances'' dv = Some tb"
    and arr: "only_member ''TokenBalance'' tb = Some (JArray vs)"
    and wf: "list_all2 well_formed_record vs recs"
    by (auto simp: well_formed_data_def split: option.splits json.splits)
  from tb obtain ms1 where dv: "dv = JObject ms1"
    and la1: "list_all (\<lambda>m. fst m = ''TokenBalances'' \<or> unrelated_key [''TokenBalances''] (fst m)) ms1"
    and mv1: "member_values ''TokenBalances'' ms1 = [tb]" by (rule only_member_Some)
  from arr obtain ms2 where tbo: "tb = JObject ms2"
    and la2: "list_all (\<lambda>m. fst m = ''TokenBalance'' \<or> unrelated_key [''TokenBalance''] (fst m)) ms2"
    and mv2: "member_values ''TokenBalance'' ms2 = [JArray vs]" by (rule only_member_Some)
  have a1: "list_all is_ascii ''TokenBalances''" and a2: "list_all is_ascii ''TokenBalance''"
    by (simp_all add: is_ascii_def)
  have inner: "store_TokenBalances tb ([], []) = ((recs, []), False)"
    unfolding tbo store_TokenBalances_def json.case
    by (simp add: single_member_fold(2) [OF a2 la2 mv2] store_slice_well_formed [OF wf])
  show ?thesis
    unfolding dv store_respData_def json.case
    by (simp add: single_member_fold(2) [OF a1 la1 mv1] inner)
qed

lemma Unmarshal_respData_well_formed:
  assumes "json_parse d = Some dv" and "well_formed_data dv recs"
  shows "Unmarshal_respData d = Inr recs"
  using assms by (simp add: Unmarshal_respData_def store_well_formed_data)

lemma scenario_parse:
  "json_parse ''{\"data\":{\"TokenBalances\":{\"TokenBalance\":[{\"amount\":\"100\",\"formattedAmount\":\"1.0\",\"blockchain\":\"ethereum\",\"tokenAddress\":\"0xabc\",\"tokenId\":\"\"}]}}}''
   = Some (JObject [(''data'', JObject [(''TokenBalances'', JObject [(''TokenBalance'',
        JArray [JObject [(''amount'', JString ''100''), (''formattedAmount'', JString ''1.0''),
                         (''blockchain'', JString ''ethereum''), (''tokenAddress'', JString ''0xabc''),
                         (''tokenId'', JString [])]])])])])"
  by code_simp

lemma scenario_raw:
  "raw_members ''{\"data\":{\"TokenBalances\":{\"TokenBalance\":[{\"amount\":\"100\",\"formattedAmount\":\"1.0\",\"blockchain\":\"ethereum\",\"tokenAddress\":\"0xabc\",\"tokenId\":\"\"}]}}}''
   = [(''data'', ''{\"TokenBalances\":{\"TokenBalance\":[{\"amount\":\"100\",\"formattedAmount\":\"1.0\",\"blockchain\":\"ethereum\",\"tokenAddress\":\"0xabc\",\"tokenId\":\"\"}]}}'')]"
  by code_simp

text \<open>The digits that \<open>fmt_d\<close> writes read back as the number.\<close>

lemma digit_char_value:
  assumes "d < 10"
  shows "is_digit (digit_char d)" and "digit_val (digit_char d) = int d"
  using assms by (simp_all add: is_digit_def digit_val_def digit_char_def)

lemma dec_digits_snoc:
  assumes "d < 10"
  shows "dec_digits acc (xs @ [digit_char d]) = map_option (\<lambda>n. 10 * n + int d) (dec_digits acc xs)"
  by (induction xs arbitrary: acc) (simp_all add: digit_char_value [OF assms])

lemma dec_digits_nat_dec: "dec_digits 0 (nat_dec n) = Some (int n)"
proof (induction n rule: nat_dec.induct)
  case (1 n)
  show ?case
  proof (cases "n < 10")
    case True
    then show ?thesis by (simp add: nat_dec.simps [of n] digit_char_value)
  next
    case False
    have "n mod 10 < 10" by simp
    from dec_digits_snoc [OF this, of 0 "nat_dec (n div 10)"] "1.IH" [OF False] False
    have "dec_digits 0 (nat_dec n) = Some (10 * int (n div 10) + int (n mod 10))"
      by (simp add: nat_dec.simps [of n])
    also have "10 * int (n div 10) + int (n mod 10) = int n"
      by (metis mult_div_mod_eq of_nat_add of_nat_mult of_nat_numeral)
    finally show ?thesis .
  qed
qed

lemma nat_dec_start: "\<exists>c cs. nat_dec n = c # cs \<and> is_digit c"
proof (induction n rule: nat_dec.induct)
  case (1 n)
  show ?case
  proof (cases "n < 10")
    case True
    then show ?thesis by (simp add: nat_dec.simps [of n] digit_char_value)
  next
    case False
    with "1.IH" obtain c cs where "nat_dec (n div 10) = c # cs" "is_digit c" by blast
    with False show ?thesis by (simp add: nat_dec.simps [of n])
  qed
qed

lemma minus_no_digit: "is_digit c \<Longrightarrow> c \<noteq> CHR ''-''"
  by (auto simp: is_digit_def)

lemma decimal_value_fmt_d: "decimal_value (fmt_d i) = Some i"
proof (cases "i < 0")
  case True
  from nat_dec_start [of "nat (- i)"] obtain c cs where "nat_dec (nat (- i)) = c # cs" by blast
  with True dec_digits_nat_dec [of "nat (- i)"] show ?thesis
    by (simp add: decimal_value_def fmt_d_def)
next
  case False
  from nat_dec_start [of "nat i"] obtain c cs where cs: "nat_dec (nat i) = c # cs" "is_digit c" by blast
  with False dec_digits_nat_dec [of "nat i"] minus_no_digit [OF cs(2)] show ?thesis
    by (simp add: decimal_value_def fmt_d_def)
qed

lemma ExecuteQuery_failed_send:
  assumes "Marshal w (query_payload q v) = Inr b"
    and "SendRequest w sent ''POST'' (URL c) (req_header (query_request c b)) b = (sent', response, statusCode, err)"
    and "err \<noteq> None \<or> statusCode \<noteq> 200"
  shows "snd (ExecuteQuery w sent c q v) =
           Inr \<lparr>Data = None, StatusCode = statusCode, Error = http_error_text w err statusCode,
                 HasNextPage = False, HasPrevPage = False,
                 NextPageFunc = None, PrevPageFunc = None\<rparr>"
  using assms(3) by (auto simp: ExecuteQuery_marshalled [OF assms(1)] assms(2) successStatusCode_def)

section \<open>The claims\<close>

text \<open>
  C1. For every response with an HTTP status code different from 200 (422 among them),
  \<open>ExecuteQuery\<close> returns no call-level error and an envelope whose \<open>Error\<close> is the
  formatted string that ends with the status code in decimal (read as a decimal
  numeral, the end of the string is the status code) and whose \<open>Data\<close> is unset. The
  response may come with its body, or with a status code and a failed read of the
  body. The error named in the string is the one \<open>SendRequest\<close> returns: none when the
  body is a JSON object that fits a map, the decoder's error otherwise.
\<close>

theorem ExecuteQuery_non_success_status:
  assumes "Marshal w (query_payload q v) = Inr b"
    and "NewRequest_error w ''POST'' (URL c) = None"
    and "Do w (query_request c b) = Response code resp \<and> err = Unmarshal_map resp
         \<or> Do w (query_request c b) = ReadError code e \<and> err = Some e"
    and "code \<noteq> 200"
  shows "snd (ExecuteQuery w sent c q v) =
           Inr \<lparr>Data = None, StatusCode = code,
                Error = ''HTTP error: '' @ fmt_s w err @ '', Status Code: '' @ fmt_d code,
                HasNextPage = False, HasPrevPage = False,
                NextPageFunc = None, PrevPageFunc = None\<rparr>
         \<and> decimal_value (fmt_d code) = Some code"
proof -
  let ?h = "req_header (query_request c b)"
  have req: "\<lparr>req_method = ''POST'', req_url = URL c, req_header = ?h, req_body = b\<rparr> = query_request c b"
    by (simp add: query_request_def)
  from assms(3) show ?thesis
  proof
    assume a: "Do w (query_request c b) = Response code resp \<and> err = Unmarshal_map resp"
    with req have "Do w \<lparr>req_method = ''POST'', req_url = URL c, req_header = ?h, req_body = b\<rparr> = Response code resp"
      by simp
    from SendRequest_Response [OF assms(2) this, of sent] a assms(4) show ?thesis
      by (simp add: ExecuteQuery_marshalled [OF assms(1)] successStatusCode_def http_error_text_def
            decimal_value_fmt_d)
  next
    assume a: "Do w (query_request c b) = ReadError code e \<and> err = Some e"
    with req have "Do w \<lparr>req_method = ''POST'', req_url = URL c, req_header = ?h, req_body = b\<rparr> = ReadError code e"
      by simp
    from SendRequest_ReadError [OF assms(2) this, of sent] a assms(4) show ?thesis
      by (simp add: ExecuteQuery_marshalled [OF assms(1)] successStatusCode_def http_error_text_def
            decimal_value_fmt_d)
  qed
qed

theorem ExecuteQuery_non_success_status_witness:
  "Marshal (server 422 ''{\"message\":\"bad request\"}'') (query_payload ''query'' ()) = Inr ''{}''
   \<and> NewRequest_error (server 422 ''{\"message\":\"bad request\"}'') ''POST'' (URL (NewAirstackClient ''key'')) = None
   \<and> Do (server 422 ''{\"message\":\"bad request\"}'') (query_request (NewAirstackClient ''key'') ''{}'')
        = Response 422 ''{\"message\":\"bad request\"}''
   \<and> (422 :: int) \<noteq> 200
   \<and> snd (ExecuteQuery (server 422 ''{\"message\":\"bad request\"}'') [] (NewAirstackClient ''key'') ''query'' ())
       = Inr \<lparr>Data = None, StatusCode = 422,
               Error = ''HTTP error: %!s(<nil>), Status Code: 422'',
               HasNextPage = False, HasPrevPage = False,
               NextPageFunc = None, PrevPageFunc = None\<rparr>
   \<and> snd (ExecuteQuery (server 422 ''{\"code\":1e999}'') [] (NewAirstackClient ''key'') ''query'' ())
       = Inr \<lparr>Data = None, StatusCode = 422,
               Error = ''HTTP error: error, Status Code: 422'',
               HasNextPage = False, HasPrevPage = False,
               NextPageFunc = None, PrevPageFunc = None\<rparr>
   \<and> decimal_value ''422'' = Some 422"
proof -
  have um: "Unmarshal_map ''{\"message\":\"bad request\"}'' = None"
    "Unmarshal_map ''{\"code\":1e999}'' = Some UnmarshalTypeError"
    by code_simp+
  have fd: "fmt_d 422 = ''422''"
    by code_simp
  show ?thesis
    using ExecuteQuery_non_success_status [where w = "server 422 ''{\"message\":\"bad request\"}''" and q = "''query''"
        and v = "()" and b = "''{}''" and c = "NewAirstackClient ''key''" and code = 422
        and resp = "''{\"message\":\"bad request\"}''" and err = None and e = SyntaxError
        and sent = "[]"]
      ExecuteQuery_non_success_status [where w = "server 422 ''{\"code\":1e999}''" and q = "''query''"
        and v = "()" and b = "''{}''" and c = "NewAirstackClient ''key''" and code = 422
        and resp = "''{\"code\":1e999}''" and err = "Some UnmarshalTypeError" and e = SyntaxError
        and sent = "[]"]
    by (simp add: server_def um fd fmt_s_def)
qed

text \<open>
  C2. When the round trip returns HTTP 200 with a body that is a JSON object without a
  member \<open>errors\<close>, \<open>ExecuteQuery\<close> returns no call-level error and an envelope with
  \<open>Error\<close> unset, status code 200 and \<open>Data\<close> the text of the body's member \<open>data\<close>, byte
  for byte (the last one, when the key is repeated).
\<close>

theorem ExecuteQuery_success_data_verbatim:
  assumes "Marshal w (query_payload q v) = Inr b"
    and "NewRequest_error w ''POST'' (URL c) = None"
    and "Do w (query_request c b) = Response 200 resp"
    and "json_parse resp = Some (JObject ms)"
    and "''errors'' \<notin> fst ` set ms"
  shows "snd (ExecuteQuery w sent c q v) =
           Inr \<lparr>Data = map_of (rev (raw_members resp)) ''data'', StatusCode = 200, Error = [],
                 HasNextPage = False, HasPrevPage = False,
                 NextPageFunc = None, PrevPageFunc = None\<rparr>"
proof -
  from raw_field_None [OF assms(4)] assms(5)
  have "map_of (rev (raw_members resp)) ''errors'' = None" by blast
  then show ?thesis
    by (simp add: ExecuteQuery_200 [OF assms(1-3)] Unmarshal_raw_map_object [OF assms(4)])
qed

theorem ExecuteQuery_success_data_verbatim_witness:
  "json_parse ''{\"data\": {\"x\": 1} }'' = Some (JObject [(''data'', JObject [(''x'', JNumber ''1'')])])
   \<and> ''errors'' \<notin> fst ` set [(''data'', JObject [(''x'', JNumber ''1'')])]
   \<and> snd (ExecuteQuery (server 200 ''{\"data\": {\"x\": 1} }'') [] (NewAirstackClient ''key'') ''query'' ())
       = Inr \<lparr>Data = Some ''{\"x\": 1}'', StatusCode = 200, Error = [],
               HasNextPage = False, HasPrevPage = False,
               NextPageFunc = None, PrevPageFunc = None\<rparr>"
proof -
  have jp: "json_parse ''{\"data\": {\"x\": 1} }'' = Some (JObject [(''data'', JObject [(''x'', JNumber ''1'')])])"
    by code_simp
  have rm: "raw_members ''{\"data\": {\"x\": 1} }'' = [(''data'', ''{\"x\": 1}'')]"
    by code_simp
  show ?thesis
    using ExecuteQuery_success_data_verbatim [where w = "server 200 ''{\"data\": {\"x\": 1} }''" and q = "''query''" and v = "()"
        and b = "''{}''" and c = "NewAirstackClient ''key''" and resp = "''{\"data\": {\"x\": 1} }''"
        and ms = "[(''data'', JObject [(''x'', JNumber ''1'')])]" and sent = "[]"]
    by (simp add: server_run jp rm)
qed

text \<open>
  C3. When the round trip returns HTTP 200 with a body that is a JSON object with a member
  \<open>errors\<close>, \<open>ExecuteQuery\<close> returns an envelope whose \<open>Error\<close> is the text of that member
  (which is not empty), whose \<open>Data\<close> is unset and whose status code is the received 200.
\<close>

theorem ExecuteQuery_errors_field:
  assumes "Marshal w (query_payload q v) = Inr b"
    and "NewRequest_error w ''POST'' (URL c) = None"
    and "Do w (query_request c b) = Response 200 resp"
    and "json_parse resp = Some (JObject ms)"
    and "''errors'' \<in> fst ` set ms"
  shows "\<exists>errorField. map_of (rev (raw_members resp)) ''errors'' = Some errorField
           \<and> errorField \<noteq> []
           \<and> snd (ExecuteQuery w sent c q v) =
               Inr \<lparr>Data = None, StatusCode = 200, Error = errorField,
                     HasNextPage = False, HasPrevPage = False,
                     NextPageFunc = None, PrevPageFunc = None\<rparr>"
proof -
  from raw_field_None [OF assms(4)] assms(5)
  obtain ef where ef: "map_of (rev (raw_members resp)) ''errors'' = Some ef"
    by (cases "map_of (rev (raw_members resp)) ''errors''") auto
  then have "(''errors'', ef) \<in> set (raw_members resp)"
    using map_of_SomeD by fastforce
  then have "ef \<noteq> []" by (rule raw_members_nonempty)
  with ef show ?thesis
    by (simp add: ExecuteQuery_200 [OF assms(1-3)] Unmarshal_raw_map_object [OF assms(4)])
qed

theorem ExecuteQuery_errors_field_witness:
  "json_parse ''{\"errors\":[{\"message\":\"boom\"}],\"data\":null}''
     = Some (JObject [(''errors'', JArray [JObject [(''message'', JString ''boom'')]]), (''data'', JNull)])
   \<and> ''errors'' \<in> fst ` set [(''errors'', JArray [JObject [(''message'', JString ''boom'')]]), (''data'', JNull)]
   \<and> snd (ExecuteQuery (server 200 ''{\"errors\":[{\"message\":\"boom\"}],\"data\":null}'') []
            (NewAirstackClient ''key'') ''query'' ())
       = Inr \<lparr>Data = None, StatusCode = 200, Error = ''[{\"message\":\"boom\"}]'',
               HasNextPage = False, HasPrevPage = False,
               NextPageFunc = None, PrevPageFunc = None\<rparr>"
proof -
  have jp: "json_parse ''{\"errors\":[{\"message\":\"boom\"}],\"data\":null}''
     = Some (JObject [(''errors'', JArray [JObject [(''message'', JString ''boom'')]]), (''data'', JNull)])"
    by code_simp
  have rm: "raw_members ''{\"errors\":[{\"message\":\"boom\"}],\"data\":null}''
     = [(''errors'', ''[{\"message\":\"boom\"}]''), (''data'', ''null'')]"
    by code_simp
  show ?thesis
    using ExecuteQuery_errors_field [where w = "server 200 ''{\"errors\":[{\"message\":\"boom\"}],\"data\":null}''"
        and q = "''query''" and v = "()" and b = "''{}''" and c = "NewAirstackClient ''key''"
        and resp = "''{\"errors\":[{\"message\":\"boom\"}],\"data\":null}''"
        and ms = "[(''errors'', JArray [JObject [(''message'', JString ''boom'')]]), (''data'', JNull)]"
        and sent = "[]"]
    by (simp add: server_run jp rm)
qed

text \<open>
  C4, as the code has it. \<open>GetTokenBalances\<close> fails with a call-level error in two cases:
  \<open>ExecuteQuery\<close> fails, and its error is returned; or decoding the envelope's \<open>Data\<close>
  fails, and the decoder's error is returned. It never reads the envelope's \<open>Error\<close>.
  An envelope whose \<open>Error\<close> is set has no \<open>Data\<close>, so the call fails then too, with the
  syntax error of decoding the empty input.
\<close>

theorem GetTokenBalances_failures:
  "snd (GetTokenBalances w sent c v) =
     (case snd (ExecuteQuery w sent c token_balances_query v) of
        Inl e \<Rightarrow> Inl e
      | Inr r \<Rightarrow>
          if Error r \<noteq> [] then Inl SyntaxError
          else Unmarshal_respData (case Data r of None \<Rightarrow> [] | Some d \<Rightarrow> d))"
proof (cases "snd (ExecuteQuery w sent c token_balances_query v)")
  case (Inl e)
  then show ?thesis by (simp add: GetTokenBalances_snd)
next
  case (Inr r)
  show ?thesis
  proof (cases "Error r = []")
    case True
    with Inr show ?thesis by (simp add: GetTokenBalances_snd)
  next
    case False
    from ExecuteQuery_error_no_data [OF Inr False] have "Data r = None" .
    with Inr False show ?thesis by (simp add: GetTokenBalances_snd Unmarshal_respData_nil)
  qed
qed

theorem GetTokenBalances_failures_witness:
  "snd (GetTokenBalances (server 200 ''{\"errors\":\"boom\"}'') [] (NewAirstackClient ''key'') ())
     = Inl SyntaxError"
  using GetTokenBalances_failures [where w = "server 200 ''{\"errors\":\"boom\"}''" and sent = "[]"
      and c = "NewAirstackClient ''key''" and v = "()"]
  by (simp add: errors_run)

text \<open>
  The claim C4 as stated fails: for an HTTP 200 body with an \<open>errors\<close> member the
  envelope carries the error text, and \<open>GetTokenBalances\<close> returns the decoder's syntax
  error for the empty input, the same error as for the body \<open>{}\<close>, which has no error at
  all. Nothing in the returned error signals the API-level failure.
\<close>

theorem GetTokenBalances_api_error_counterexample:
  "snd (ExecuteQuery (server 200 ''{\"errors\":\"boom\"}'') [] (NewAirstackClient ''key'') token_balances_query ())
     = Inr \<lparr>Data = None, StatusCode = 200, Error = ''\"boom\"'',
             HasNextPage = False, HasPrevPage = False,
             NextPageFunc = None, PrevPageFunc = None\<rparr>
   \<and> snd (GetTokenBalances (server 200 ''{\"errors\":\"boom\"}'') [] (NewAirstackClient ''key'') ())
       = Inl SyntaxError
   \<and> snd (GetTokenBalances (server 200 ''{}'') [] (NewAirstackClient ''key'') ())
       = Inl SyntaxError
   \<and> Unmarshal_respData [] = Inl SyntaxError"
  by (simp add: GetTokenBalances_snd errors_run empty_object_run Unmarshal_respData_nil)

text \<open>
  C5, as the code has it. For every envelope that \<open>ExecuteQuery\<close> returns: a status code
  other than 200 implies that \<open>Error\<close> is set; \<open>Error\<close> and \<open>Data\<close> are never both set; and
  both are unset exactly when the round trip returned HTTP 200 with a body that is
  \<open>null\<close> or a JSON object with neither a member \<open>errors\<close> nor a member \<open>data\<close>. In every
  other case exactly one of the two is set.
\<close>

theorem ExecuteQuery_envelope_invariant:
  assumes "snd (ExecuteQuery w sent c q v) = Inr r"
  shows "(StatusCode r \<noteq> 200 \<longrightarrow> Error r \<noteq> [])
       \<and> \<not> (Error r \<noteq> [] \<and> Data r \<noteq> None)
       \<and> ((Error r = [] \<and> Data r = None) \<longleftrightarrow>
            (\<exists>b resp. Marshal w (query_payload q v) = Inr b
               \<and> NewRequest_error w ''POST'' (URL c) = None
               \<and> Do w (query_request c b) = Response 200 resp
               \<and> no_data_no_errors resp))"
proof -
  from assms obtain b where mb: "Marshal w (query_payload q v) = Inr b"
    by (cases "Marshal w (query_payload q v)")
       (auto simp: ExecuteQuery_def query_payload_def)
  let ?h = "req_header (query_request c b)"
  have req: "\<lparr>req_method = ''POST'', req_url = URL c, req_header = ?h, req_body = b\<rparr> = query_request c b"
    by (simp add: query_request_def)
  let ?R = "\<exists>b resp. Marshal w (query_payload q v) = Inr b
               \<and> NewRequest_error w ''POST'' (URL c) = None
               \<and> Do w (query_request c b) = Response 200 resp
               \<and> no_data_no_errors resp"
  have failed: ?thesis
    if sr: "SendRequest w sent ''POST'' (URL c) ?h b = (sent', response, statusCode, err)"
      and bad: "err \<noteq> None \<or> statusCode \<noteq> 200"
      and noR: "\<not> ?R" for sent' response statusCode err
  proof -
    from ExecuteQuery_failed_send [OF mb sr bad] assms
    have "r = \<lparr>Data = None, StatusCode = statusCode, Error = http_error_text w err statusCode,
                 HasNextPage = False, HasPrevPage = False,
                 NextPageFunc = None, PrevPageFunc = None\<rparr>" by simp
    with noR show ?thesis by (simp add: http_error_text_nonempty)
  qed
  show ?thesis
  proof (cases "NewRequest_error w ''POST'' (URL c)")
    case (Some e)
    then have "SendRequest w sent ''POST'' (URL c) ?h b = (sent, [], 0, Some e)"
      by (simp add: SendRequest_def)
    moreover from Some have "\<not> ?R" by simp
    ultimately show ?thesis by (intro failed) auto
  next
    case None
    show ?thesis
    proof (cases "Do w (query_request c b)")
      case (DoError e)
      with None req have "SendRequest w sent ''POST'' (URL c) ?h b = (sent @ [query_request c b], [], 0, Some e)"
        by (simp add: SendRequest_def Let_def)
      moreover from DoError mb have "\<not> ?R" by auto
      ultimately show ?thesis by (intro failed) auto
    next
      case (ReadError code e)
      with None req have "SendRequest w sent ''POST'' (URL c) ?h b = (sent @ [query_request c b], [], code, Some e)"
        by (simp add: SendRequest_def Let_def)
      moreover from ReadError mb have "\<not> ?R" by auto
      ultimately show ?thesis by (intro failed) auto
    next
      case (Response code resp)
      show ?thesis
      proof (cases "code = 200")
        case False
        from Response req have "Do w \<lparr>req_method = ''POST'', req_url = URL c, req_header = ?h, req_body = b\<rparr> = Response code resp"
          by simp
        from SendRequest_Response [OF None this, of sent]
        have "SendRequest w sent ''POST'' (URL c) ?h b =
                (sent @ [\<lparr>req_method = ''POST'', req_url = URL c, req_header = ?h, req_body = b\<rparr>], resp, code,
                 if code \<noteq> successStatusCode then Unmarshal_map resp else None)" .
        moreover from Response mb False have "\<not> ?R" by auto
        ultimately show ?thesis using False by (intro failed) auto
      next
        case True
        with Response have do200: "Do w (query_request c b) = Response 200 resp" by simp
        have R: "?R \<longleftrightarrow> no_data_no_errors resp"
          using mb None do200 by auto
        note eq = ExecuteQuery_200 [OF mb None do200, of sent]
        show ?thesis
        proof (cases "json_parse resp")
          case None
          with eq assms show ?thesis by (simp add: Unmarshal_raw_map_def)
        next
          case (Some x)
          show ?thesis
          proof (cases x)
            case JNull
            with Some eq assms have "r = \<lparr>Data = None, StatusCode = 200, Error = [],
                     HasNextPage = False, HasPrevPage = False,
                     NextPageFunc = None, PrevPageFunc = None\<rparr>"
              by (simp add: Unmarshal_raw_map_def)
            moreover from Some JNull have "no_data_no_errors resp" by (simp add: no_data_no_errors_def)
            ultimately show ?thesis using R by simp
          next
            case (JObject ms)
            with Some have jp: "json_parse resp = Some (JObject ms)" by simp
            have nd: "no_data_no_errors resp \<longleftrightarrow> ''errors'' \<notin> fst ` set ms \<and> ''data'' \<notin> fst ` set ms"
              by (simp add: no_data_no_errors_def jp)
            show ?thesis
            proof (cases "map_of (rev (raw_members resp)) ''errors''")
              case None
              with eq assms have r: "r = \<lparr>Data = map_of (rev (raw_members resp)) ''data'', StatusCode = 200, Error = [],
                     HasNextPage = False, HasPrevPage = False,
                     NextPageFunc = None, PrevPageFunc = None\<rparr>"
                by (simp add: Unmarshal_raw_map_object [OF jp])
              from None raw_field_None [OF jp] have "''errors'' \<notin> fst ` set ms" by blast
              with r R nd raw_field_None [OF jp, of "''data''"] show ?thesis by simp
            next
              case (Some ef)
              with eq assms have r: "r = \<lparr>Data = None, StatusCode = 200, Error = ef,
                     HasNextPage = False, HasPrevPage = False,
                     NextPageFunc = None, PrevPageFunc = None\<rparr>"
                by (simp add: Unmarshal_raw_map_object [OF jp])
              from Some have "(''errors'', ef) \<in> set (raw_members resp)"
                using map_of_SomeD by fastforce
              then have ne: "ef \<noteq> []" by (rule raw_members_nonempty)
              from Some raw_field_None [OF jp, of "''errors''"] have "''errors'' \<in> fst ` set ms" by simp
              with r R nd ne show ?thesis by simp
            qed
          qed (use Some eq assms in \<open>simp_all add: Unmarshal_raw_map_def\<close>)
        qed
      qed
    qed
  qed
qed

theorem ExecuteQuery_envelope_invariant_witness:
  "snd (ExecuteQuery (server 200 ''{\"data\": {\"x\": 1} }'') [] (NewAirstackClient ''key'') ''query'' ())
     = Inr \<lparr>Data = Some ''{\"x\": 1}'', StatusCode = 200, Error = [],
             HasNextPage = False, HasPrevPage = False,
             NextPageFunc = None, PrevPageFunc = None\<rparr>
   \<and> no_data_no_errors ''{\"data\": {\"x\": 1} }'' = False
   \<and> no_data_no_errors ''{}'' = True"
proof -
  have jp: "json_parse ''{\"data\": {\"x\": 1} }'' = Some (JObject [(''data'', JObject [(''x'', JNumber ''1'')])])"
    by code_simp
  have rm: "raw_members ''{\"data\": {\"x\": 1} }'' = [(''data'', ''{\"x\": 1}'')]"
    by code_simp
  have je: "json_parse ''{}'' = Some (JObject [])"
    by code_simp
  have eq: "snd (ExecuteQuery (server 200 ''{\"data\": {\"x\": 1} }'') [] (NewAirstackClient ''key'') ''query'' ())
     = Inr \<lparr>Data = Some ''{\"x\": 1}'', StatusCode = 200, Error = [],
             HasNextPage = False, HasPrevPage = False,
             NextPageFunc = None, PrevPageFunc = None\<rparr>"
    by (simp add: ExecuteQuery_200 [OF server_run] Unmarshal_raw_map_object [OF jp] rm)
  from ExecuteQuery_envelope_invariant [OF eq] eq show ?thesis
    by (simp add: no_data_no_errors_def jp je)
qed

text \<open>
  The claim C5 as stated fails: for the HTTP 200 body \<open>{}\<close> the envelope has neither
  \<open>Error\<close> nor \<open>Data\<close>, so "exactly one of the two" does not hold.
\<close>

theorem ExecuteQuery_empty_object_counterexample:
  "snd (ExecuteQuery (server 200 ''{}'') [] (NewAirstackClient ''key'') ''query'' ())
     = Inr \<lparr>Data = None, StatusCode = 200, Error = [],
             HasNextPage = False, HasPrevPage = False,
             NextPageFunc = None, PrevPageFunc = None\<rparr>"
proof -
  have jp: "json_parse ''{}'' = Some (JObject [])"
    by code_simp
  have rm: "raw_members ''{}'' = []"
    by code_simp
  show ?thesis
    by (simp add: ExecuteQuery_200 [OF server_run] Unmarshal_raw_map_object [OF jp] rm)
qed

text \<open>
  C6. A response with a status code other than 200 is no error for \<open>SendRequest\<close>: it
  returns the body and the status code, and as error only the result of decoding the
  body into a map: none for a JSON object whose numbers fit a \<open>float64\<close> and for \<open>null\<close>,
  a syntax error for a body that is not JSON, a type error otherwise. The body and the
  status code are returned also when that check fails.
\<close>

theorem SendRequest_non_success_status:
  assumes "NewRequest_error w meth u = None"
    and "Do w \<lparr>req_method = meth, req_url = u, req_header = h, req_body = b\<rparr> = Response code resp"
    and "code \<noteq> 200"
  shows "snd (SendRequest w sent meth u h b) = (resp, code, Unmarshal_map resp)"
  using SendRequest_Response [OF assms(1,2), of sent] assms(3)
  by (simp add: successStatusCode_def)

theorem SendRequest_non_success_status_witness:
  "snd (SendRequest (server 422 ''oops'') [] ''POST'' ''http://x'' Map.empty [])
       = (''oops'', 422, Some SyntaxError)
   \<and> snd (SendRequest (server 422 ''{\"code\":1e999}'') [] ''POST'' ''http://x'' Map.empty [])
       = (''{\"code\":1e999}'', 422, Some UnmarshalTypeError)
   \<and> snd (SendRequest (server 422 ''{\"message\":\"bad request\"}'') [] ''POST'' ''http://x'' Map.empty [])
       = (''{\"message\":\"bad request\"}'', 422, None)"
proof -
  have um: "Unmarshal_map ''oops'' = Some SyntaxError"
    "Unmarshal_map ''{\"code\":1e999}'' = Some UnmarshalTypeError"
    "Unmarshal_map ''{\"message\":\"bad request\"}'' = None"
    by code_simp+
  have run: "NewRequest_error (server 422 resp) ''POST'' ''http://x'' = None"
    "Do (server 422 resp) \<lparr>req_method = ''POST'', req_url = ''http://x'', req_header = Map.empty, req_body = []\<rparr>
       = Response 422 resp"
    "(422 :: int) \<noteq> 200" for resp
    by (simp_all add: server_def)
  from SendRequest_non_success_status [OF run, of "''oops''" "[]"]
    SendRequest_non_success_status [OF run, of "''{\"code\":1e999}''" "[]"]
    SendRequest_non_success_status [OF run, of "''{\"message\":\"bad request\"}''" "[]"]
  show ?thesis by (simp add: um)
qed

text \<open>
  C7. When the server answers HTTP 200 with a JSON object that has no member \<open>errors\<close>
  and whose member \<open>data\<close> (the last one, when the key is repeated) is well-formed data
  for the records \<open>r1, ..., rN\<close>, \<open>GetTokenBalances\<close> returns exactly these N records,
  every field equal to the string that the member of that name denotes, whatever the
  order of the members and whatever unrelated members stand beside them. The scenario
  with one record gives \<open>Amount = "100"\<close> and \<open>Blockchain = "ethereum"\<close>.
\<close>

theorem GetTokenBalances_round_trip:
  assumes "Marshal w (query_payload token_balances_query v) = Inr b"
    and "NewRequest_error w ''POST'' (URL c) = None"
    and "Do w (query_request c b) = Response 200 resp"
    and "json_parse resp = Some (JObject ms)"
    and "''errors'' \<notin> fst ` set ms"
    and "map_of (rev ms) ''data'' = Some dv"
    and "well_formed_data dv recs"
  shows "snd (GetTokenBalances w sent c v) = Inr recs"
proof -
  from raw_field_None [OF assms(4)] assms(5)
  have "map_of (rev (raw_members resp)) ''errors'' = None" by blast
  moreover from raw_field_value [OF assms(4) assms(6)] obtain d where
    d: "map_of (rev (raw_members resp)) ''data'' = Some d" and jp: "json_parse d = Some dv" by blast
  ultimately have "snd (ExecuteQuery w sent c token_balances_query v) =
           Inr \<lparr>Data = Some d, StatusCode = 200, Error = [],
                 HasNextPage = False, HasPrevPage = False,
                 NextPageFunc = None, PrevPageFunc = None\<rparr>"
    by (simp add: ExecuteQuery_200 [OF assms(1-3)] Unmarshal_raw_map_object [OF assms(4)])
  then show ?thesis
    by (simp add: GetTokenBalances_snd Unmarshal_respData_well_formed [OF jp assms(7)])
qed

theorem GetTokenBalances_round_trip_witness:
  "snd (GetTokenBalances (server 200 ''{\"data\":{\"TokenBalances\":{\"TokenBalance\":[{\"amount\":\"100\",\"formattedAmount\":\"1.0\",\"blockchain\":\"ethereum\",\"tokenAddress\":\"0xabc\",\"tokenId\":\"\"}]}}}'') [] (NewAirstackClient ''key'') ())
     = Inr [\<lparr>Amount = ''100'', FormattedAmount = ''1.0'', Blockchain = ''ethereum'', TokenAddress = ''0xabc'', TokenId = []\<rparr>]
   \<and> snd (GetTokenBalances (server 200 ''{\"data\":{\"TokenBalances\":{\"pageInfo\":{\"nextCursor\":\"\"},\"TokenBalance\":[{\"tokenId\":\"7\",\"extra\":1,\"blockchain\":\"polygon\",\"amount\":\"5\",\"tokenAddress\":\"0xdef\",\"formattedAmount\":\"0.5\"}]}},\"extensions\":{}}'') [] (NewAirstackClient ''key'') ())
     = Inr [\<lparr>Amount = ''5'', FormattedAmount = ''0.5'', Blockchain = ''polygon'', TokenAddress = ''0xdef'', TokenId = ''7''\<rparr>]"
proof -
  let ?B1 = "''{\"data\":{\"TokenBalances\":{\"TokenBalance\":[{\"amount\":\"100\",\"formattedAmount\":\"1.0\",\"blockchain\":\"ethereum\",\"tokenAddress\":\"0xabc\",\"tokenId\":\"\"}]}}}''"
  let ?B2 = "''{\"data\":{\"TokenBalances\":{\"pageInfo\":{\"nextCursor\":\"\"},\"TokenBalance\":[{\"tokenId\":\"7\",\"extra\":1,\"blockchain\":\"polygon\",\"amount\":\"5\",\"tokenAddress\":\"0xdef\",\"formattedAmount\":\"0.5\"}]}},\"extensions\":{}}''"
  have m1: "Marshal (server 200 ?B1) (query_payload token_balances_query ()) = Inr ''{}''"
    and m2: "Marshal (server 200 ?B2) (query_payload token_balances_query ()) = Inr ''{}''"
    by (simp_all add: server_def)
  have n1: "NewRequest_error (server 200 ?B1) ''POST'' (URL (NewAirstackClient ''key'')) = None"
    and n2: "NewRequest_error (server 200 ?B2) ''POST'' (URL (NewAirstackClient ''key'')) = None"
    by (simp_all add: server_def)
  have d1: "Do (server 200 ?B1) (query_request (NewAirstackClient ''key'') ''{}'') = Response 200 ?B1"
    and d2: "Do (server 200 ?B2) (query_request (NewAirstackClient ''key'') ''{}'') = Response 200 ?B2"
    by (simp_all add: server_def)
  have p1: "json_parse ?B1 = Some (JObject [(''data'', JObject [(''TokenBalances'', JObject [(''TokenBalance'', JArray [JObject [(''amount'', JString ''100''), (''formattedAmount'', JString ''1.0''), (''blockchain'', JString ''ethereum''), (''tokenAddress'', JString ''0xabc''), (''tokenId'', JString [])]])])])])"
    by code_simp
  have p2: "json_parse ?B2 = Some (JObject [(''data'', JObject [(''TokenBalances'', JObject [(''pageInfo'', JObject [(''nextCursor'', JString [])]), (''TokenBalance'', JArray [JObject [(''tokenId'', JString ''7''), (''extra'', JNumber ''1''), (''blockchain'', JString ''polygon''), (''amount'', JString ''5''), (''tokenAddress'', JString ''0xdef''), (''formattedAmount'', JString ''0.5'')]])])]), (''extensions'', JObject [])])"
    by code_simp
  have e1: "''errors'' \<notin> fst ` set [(''data'', JObject [(''TokenBalances'', JObject [(''TokenBalance'', JArray [JObject [(''amount'', JString ''100''), (''formattedAmount'', JString ''1.0''), (''blockchain'', JString ''ethereum''), (''tokenAddress'', JString ''0xabc''), (''tokenId'', JString [])]])])])]"
    and e2: "''errors'' \<notin> fst ` set [(''data'', JObject [(''TokenBalances'', JObject [(''pageInfo'', JObject [(''nextCursor'', JString [])]), (''TokenBalance'', JArray [JObject [(''tokenId'', JString ''7''), (''extra'', JNumber ''1''), (''blockchain'', JString ''polygon''), (''amount'', JString ''5''), (''tokenAddress'', JString ''0xdef''), (''formattedAmount'', JString ''0.5'')]])])]), (''extensions'', JObject [])]"
    by simp_all
  have l1: "map_of (rev [(''data'', JObject [(''TokenBalances'', JObject [(''TokenBalance'', JArray [JObject [(''amount'', JString ''100''), (''formattedAmount'', JString ''1.0''), (''blockchain'', JString ''ethereum''), (''tokenAddress'', JString ''0xabc''), (''tokenId'', JString [])]])])])]) ''data'' = Some (JObject [(''TokenBalances'', JObject [(''TokenBalance'', JArray [JObject [(''amount'', JString ''100''), (''formattedAmount'', JString ''1.0''), (''blockchain'', JString ''ethereum''), (''tokenAddress'', JString ''0xabc''), (''tokenId'', JString [])]])])])"
    and l2: "map_of (rev [(''data'', JObject [(''TokenBalances'', JObject [(''pageInfo'', JObject [(''nextCursor'', JString [])]), (''TokenBalance'', JArray [JObject [(''tokenId'', JString ''7''), (''extra'', JNumber ''1''), (''blockchain'', JString ''polygon''), (''amount'', JString ''5''), (''tokenAddress'', JString ''0xdef''), (''formattedAmount'', JString ''0.5'')]])])]), (''extensions'', JObject [])]) ''data'' = Some (JObject [(''TokenBalances'', JObject [(''pageInfo'', JObject [(''nextCursor'', JString [])]), (''TokenBalance'', JArray [JObject [(''tokenId'', JString ''7''), (''extra'', JNumber ''1''), (''blockchain'', JString ''polygon''), (''amount'', JString ''5''), (''tokenAddress'', JString ''0xdef''), (''formattedAmount'', JString ''0.5'')]])])])"
    by simp_all
  have w1: "well_formed_data (JObject [(''TokenBalances'', JObject [(''TokenBalance'', JArray [JObject [(''amount'', JString ''100''), (''formattedAmount'', JString ''1.0''), (''blockchain'', JString ''ethereum''), (''tokenAddress'', JString ''0xabc''), (''tokenId'', JString [])]])])]) [\<lparr>Amount = ''100'', FormattedAmount = ''1.0'', Blockchain = ''ethereum'', TokenAddress = ''0xabc'', TokenId = []\<rparr>]"
    by code_simp
  have w2: "well_formed_data (JObject [(''TokenBalances'', JObject [(''pageInfo'', JObject [(''nextCursor'', JString [])]), (''TokenBalance'', JArray [JObject [(''tokenId'', JString ''7''), (''extra'', JNumber ''1''), (''blockchain'', JString ''polygon''), (''amount'', JString ''5''), (''tokenAddress'', JString ''0xdef''), (''formattedAmount'', JString ''0.5'')]])])]) [\<lparr>Amount = ''5'', FormattedAmount = ''0.5'', Blockchain = ''polygon'', TokenAddress = ''0xdef'', TokenId = ''7''\<rparr>]"
    by code_simp
  from GetTokenBalances_round_trip [OF m1 n1 d1 p1 e1 l1 w1, of "[]"]
    GetTokenBalances_round_trip [OF m2 n2 d2 p2 e2 l2 w2, of "[]"]
  show ?thesis by simp
qed

text \<open>
  C8. The requests that \<open>ExecuteQuery\<close> hands to the transport: none when marshalling
  the map \<open>{query, variables}\<close> fails or the request cannot be built, and otherwise exactly
  one, with method POST, the client's URL, the marshalled map as body, and the two
  headers \<open>Content-Type: application/json\<close> and \<open>Authorization\<close> with the API key as it is.
\<close>

theorem ExecuteQuery_request_sent:
  "fst (ExecuteQuery w sent c q v) =
     (case Marshal w [''query'' \<mapsto> IString q, ''variables'' \<mapsto> IVariables v] of
        Inl e \<Rightarrow> sent
      | Inr b \<Rightarrow>
          (case NewRequest_error w ''POST'' (URL c) of
             Some e \<Rightarrow> sent
           | None \<Rightarrow>
               sent @ [\<lparr>req_method = ''POST'', req_url = URL c,
                         req_header = [''Content-Type'' \<mapsto> ''application/json'',
                                   ''Authorization'' \<mapsto> APIKey c],
                         req_body = b\<rparr>]))"
  by (simp add: ExecuteQuery_def SendRequest_def Let_def
           split: sum.splits option.splits round_trip.splits prod.splits)

theorem ExecuteQuery_request_sent_witness:
  "fst (ExecuteQuery (server 200 ''{}'') [] (NewAirstackClient ''secret'') ''query'' ()) =
     [\<lparr>req_method = ''POST'', req_url = ''https://api.airstack.xyz/gql'',
       req_header = [''Content-Type'' \<mapsto> ''application/json'', ''Authorization'' \<mapsto> ''secret''],
       req_body = ''{}''\<rparr>]"
  using ExecuteQuery_request_sent [where w = "server 200 ''{}''" and sent = "[]" and c = "NewAirstackClient ''secret''"
      and q = "''query''" and v = "()"]
  by (simp add: server_def NewAirstackClient_def apiEndpointProd_def)

text \<open>
  C9. Every envelope that \<open>ExecuteQuery\<close> returns has \<open>HasNextPage\<close> and \<open>HasPrevPage\<close>
  false and \<open>NextPageFunc\<close> and \<open>PrevPageFunc\<close> nil, also for a body with a \<open>pageInfo\<close>
  member.
\<close>

theorem ExecuteQuery_no_pagination:
  assumes "snd (ExecuteQuery w sent c q v) = Inr r"
  shows "\<not> HasNextPage r \<and> \<not> HasPrevPage r \<and> NextPageFunc r = None \<and> PrevPageFunc r = None"
  using assms
  by (auto simp: ExecuteQuery_def Let_def split: sum.splits option.splits prod.splits if_splits)

theorem ExecuteQuery_no_pagination_witness:
  "snd (ExecuteQuery (server 200 ''{\"data\":{\"pageInfo\":{\"hasNextPage\":true}}}'') []
          (NewAirstackClient ''key'') ''query'' ())
     = Inr \<lparr>Data = Some ''{\"pageInfo\":{\"hasNextPage\":true}}'', StatusCode = 200, Error = [],
             HasNextPage = False, HasPrevPage = False,
             NextPageFunc = None, PrevPageFunc = None\<rparr>
   \<and> \<not> HasNextPage \<lparr>Data = Some ''{\"pageInfo\":{\"hasNextPage\":true}}'', StatusCode = 200, Error = [],
             HasNextPage = False, HasPrevPage = False,
             NextPageFunc = None, PrevPageFunc = None\<rparr>"
proof -
  have jp: "json_parse ''{\"data\":{\"pageInfo\":{\"hasNextPage\":true}}}''
     = Some (JObject [(''data'', JObject [(''pageInfo'', JObject [(''hasNextPage'', JBool True)])])])"
    by code_simp
  have rm: "raw_members ''{\"data\":{\"pageInfo\":{\"hasNextPage\":true}}}''
     = [(''data'', ''{\"pageInfo\":{\"hasNextPage\":true}}'')]"
    by code_simp
  have eq: "snd (ExecuteQuery (server 200 ''{\"data\":{\"pageInfo\":{\"hasNextPage\":true}}}'') []
          (NewAirstackClient ''key'') ''query'' ())
     = Inr \<lparr>Data = Some ''{\"pageInfo\":{\"hasNextPage\":true}}'', StatusCode = 200, Error = [],
             HasNextPage = False, HasPrevPage = False,
             NextPageFunc = None, PrevPageFunc = None\<rparr>"
    by (simp add: ExecuteQuery_200 [OF server_run] Unmarshal_raw_map_object [OF jp] rm)
  from ExecuteQuery_no_pagination [OF eq] eq show ?thesis by simp
qed

text \<open>
  C10, as the code has it. When the round trip returns HTTP 200 with a body that is not
  JSON, or is a JSON value other than an object and other than \<open>null\<close>, \<open>ExecuteQuery\<close>
  returns a call-level error (a syntax error in the first case, a type error in the
  second) and no envelope.
\<close>

theorem ExecuteQuery_undecodable_body:
  assumes "Marshal w (query_payload q v) = Inr b"
    and "NewRequest_error w ''POST'' (URL c) = None"
    and "Do w (query_request c b) = Response 200 resp"
    and "json_parse resp = None \<or> (\<exists>x. json_parse resp = Some x \<and> x \<noteq> JNull \<and> (\<forall>ms. x \<noteq> JObject ms))"
  shows "snd (ExecuteQuery w sent c q v) =
           Inl (if json_parse resp = None then SyntaxError else UnmarshalTypeError)"
proof -
  from assms(4)
  have "Unmarshal_raw_map resp = Inl (if json_parse resp = None then SyntaxError else UnmarshalTypeError)"
    by (auto simp: Unmarshal_raw_map_def split: json.splits)
  then show ?thesis
    by (simp add: ExecuteQuery_200 [OF assms(1-3)])
qed

theorem ExecuteQuery_undecodable_body_witness:
  "json_parse ''[1,2]'' = Some (JArray [JNumber ''1'', JNumber ''2''])
   \<and> snd (ExecuteQuery (server 200 ''[1,2]'') [] (NewAirstackClient ''key'') ''query'' ())
       = Inl UnmarshalTypeError
   \<and> json_parse ''<html>'' = None
   \<and> snd (ExecuteQuery (server 200 ''<html>'') [] (NewAirstackClient ''key'') ''query'' ())
       = Inl SyntaxError"
proof -
  have jp: "json_parse ''[1,2]'' = Some (JArray [JNumber ''1'', JNumber ''2''])"
    by code_simp
  have jn: "json_parse ''<html>'' = None"
    by code_simp
  show ?thesis
    using ExecuteQuery_undecodable_body [where w = "server 200 ''[1,2]''" and q = "''query''" and v = "()" and b = "''{}''"
        and c = "NewAirstackClient ''key''" and resp = "''[1,2]''" and sent = "[]"]
      ExecuteQuery_undecodable_body [where w = "server 200 ''<html>''" and q = "''query''" and v = "()" and b = "''{}''"
        and c = "NewAirstackClient ''key''" and resp = "''<html>''" and sent = "[]"]
    by (simp add: server_run jp jn)
qed

text \<open>
  The claim C10 as stated fails: the body \<open>null\<close> is no JSON object, and
  \<open>json.Unmarshal\<close> stores it into a map without error, so \<open>ExecuteQuery\<close> returns an
  envelope with neither error nor data, and no call-level error.
\<close>

theorem ExecuteQuery_null_body_counterexample:
  "json_parse ''null'' = Some JNull
   \<and> snd (ExecuteQuery (server 200 ''null'') [] (NewAirstackClient ''key'') ''query'' ())
       = Inr \<lparr>Data = None, StatusCode = 200, Error = [],
               HasNextPage = False, HasPrevPage = False,
               NextPageFunc = None, PrevPageFunc = None\<rparr>"
proof -
  have jp: "json_parse ''null'' = Some JNull"
    by code_simp
  then have "Unmarshal_raw_map ''null'' = Inr Map.empty"
    by (simp add: Unmarshal_raw_map_def)
  with jp show ?thesis
    by (simp add: ExecuteQuery_200 [OF server_run])
qed

end
